theory Spec2Isabelle
  imports Main
begin

section \<open>The resource ring\<close>

text \<open>
  \<^verbatim>\<open>dinning-philosophers.cpp\<close> holds three classes, each a solution of the dining
  philosophers problem with \<^verbatim>\<open>static const int NUM_PHILOSOPHERS = 5\<close>. Philosopher
  \<open>pid\<close> uses chopstick \<open>pid\<close> and chopstick \<open>(pid + 1) % NUM_PHILOSOPHERS\<close>.

  Each class is embedded as an interleaving transition system. A thread is a program
  counter together with its local variables; one step of the system is one step of one thread,
  taken at the granularity of the synchronisation operations and the writes to shared data.
  A schedule is the list of the threads chosen, a blocked thread's turn leaves the
  state as it is. A theorem about all schedules is a theorem about every run.
  Delays (\<^verbatim>\<open>sleep_for\<close>) and console output have no effect on the state and are
  not modelled; thread identifiers, meal counts and attempt counts stay below 16, so the
  C++ \<^verbatim>\<open>int\<close> values are natural numbers.
\<close>

definition NUM_PHILOSOPHERS :: nat where
  "NUM_PHILOSOPHERS = 5"

section \<open>Solution 3: timeouts (class DiningPhilosophersTimeout)\<close>

text \<open>
  Lines 229 to 233 of the source: \<^verbatim>\<open>left = id; right = (id + 1) % NUM_PHILOSOPHERS;
  if (left > right) swap(left, right);\<close>. The pair is (left, right) after the swap.
\<close>

definition t_order :: "nat \<Rightarrow> nat \<times> nat" where
  "t_order pid =
     (let left = pid; right = (pid + 1) mod NUM_PHILOSOPHERS
      in if left > right then (right, left) else (left, right))"

definition t_left :: "nat \<Rightarrow> nat" where
  "t_left pid = fst (t_order pid)"

definition t_right :: "nat \<Rightarrow> nat" where
  "t_right pid = snd (t_order pid)"

text \<open>
  The program counter of a philosopher thread names the statement it executes next:
  the loop head of line 221, the thinking delay, the two \<^verbatim>\<open>try_lock_for\<close> calls
  of lines 238 and 242, the two increments of lines 246 and 247, the eating delay of
  line 249, the two unlocks of lines 252 and 253, the unlock of line 260 after a timeout
  on the second chopstick, and the end of the function.
\<close>

datatype t_pc =
  T_LoopHead | T_Think | T_TryFirst | T_TrySecond | T_Count | T_Eat
  | T_UnlockRight | T_UnlockLeft | T_Backoff | T_Done

text \<open>What a thread did, in the order of the run; the first argument is the thread.\<close>

datatype t_event =
  T_Begin nat | T_Lock nat nat | T_Success nat | T_Consume nat
  | T_Unlock nat nat | T_TimedOut nat

record t_state =
  t_chopsticks :: "bool list"
  successful_meals :: nat
  timeouts :: nat
  t_pcs :: "t_pc list"
  meals_eaten :: "nat list"
  attempts :: "nat list"
  t_log :: "t_event list"

definition t_goto :: "nat \<Rightarrow> t_pc \<Rightarrow> t_state \<Rightarrow> t_state" where
  "t_goto i p s = s\<lparr>t_pcs := (t_pcs s)[i := p]\<rparr>"

definition t_emit :: "t_event \<Rightarrow> t_state \<Rightarrow> t_state" where
  "t_emit e s = s\<lparr>t_log := t_log s @ [e]\<rparr>"

text \<open>
  One step of thread \<open>i\<close> at program counter \<open>p\<close>; \<open>None\<close> when the thread cannot
  move (a \<^verbatim>\<open>try_lock_for\<close> on a locked mutex keeps waiting, a finished thread has
  nothing to do).
\<close>

fun t_exec :: "t_pc \<Rightarrow> nat \<Rightarrow> t_state \<Rightarrow> t_state option" where
  "t_exec T_LoopHead i s =
     (if meals_eaten s ! i < 3 \<and> attempts s ! i < 10
      then Some (t_goto i T_Think (t_emit (T_Begin i)
                  (s\<lparr>attempts := (attempts s)[i := attempts s ! i + 1]\<rparr>)))
      else Some (t_goto i T_Done s))"
| "t_exec T_Think i s = Some (t_goto i T_TryFirst s)"
| "t_exec T_TryFirst i s =
     (if t_chopsticks s ! t_left i then None
      else Some (t_goto i T_TrySecond (t_emit (T_Lock i (t_left i))
                  (s\<lparr>t_chopsticks := (t_chopsticks s)[t_left i := True]\<rparr>))))"
| "t_exec T_TrySecond i s =
     (if t_chopsticks s ! t_right i then None
      else Some (t_goto i T_Count (t_emit (T_Lock i (t_right i))
                  (s\<lparr>t_chopsticks := (t_chopsticks s)[t_right i := True]\<rparr>))))"
| "t_exec T_Count i s =
     Some (t_goto i T_Eat (t_emit (T_Success i)
            (s\<lparr>meals_eaten := (meals_eaten s)[i := meals_eaten s ! i + 1],
               successful_meals := successful_meals s + 1\<rparr>)))"
| "t_exec T_Eat i s = Some (t_goto i T_UnlockRight (t_emit (T_Consume i) s))"
| "t_exec T_UnlockRight i s =
     Some (t_goto i T_UnlockLeft (t_emit (T_Unlock i (t_right i))
            (s\<lparr>t_chopsticks := (t_chopsticks s)[t_right i := False]\<rparr>)))"
| "t_exec T_UnlockLeft i s =
     Some (t_goto i T_LoopHead (t_emit (T_Unlock i (t_left i))
            (s\<lparr>t_chopsticks := (t_chopsticks s)[t_left i := False]\<rparr>)))"
| "t_exec T_Backoff i s =
     Some (t_goto i T_LoopHead (t_emit (T_Unlock i (t_left i))
            (s\<lparr>t_chopsticks := (t_chopsticks s)[t_left i := False]\<rparr>)))"
| "t_exec T_Done i s = None"

text \<open>
  A pending \<^verbatim>\<open>try_lock_for\<close> returns false: the else branches of lines 256 and 265.
  Both count the timeout; after the first chopstick was taken the thread still has to
  give it back. Time is not modelled, so the call may give up at any moment, which the
  C++ standard allows (the call may fail spuriously).
\<close>

fun t_expire :: "t_pc \<Rightarrow> nat \<Rightarrow> t_state \<Rightarrow> t_state option" where
  "t_expire T_TryFirst i s =
     Some (t_goto i T_LoopHead (t_emit (T_TimedOut i) (s\<lparr>timeouts := timeouts s + 1\<rparr>)))"
| "t_expire T_TrySecond i s =
     Some (t_goto i T_Backoff (t_emit (T_TimedOut i) (s\<lparr>timeouts := timeouts s + 1\<rparr>)))"
| "t_expire p i s = None"

datatype t_sched = Run nat | Expire nat

fun t_step :: "t_state \<Rightarrow> t_sched \<Rightarrow> t_state option" where
  "t_step s (Run i) = (if i < NUM_PHILOSOPHERS then t_exec (t_pcs s ! i) i s else None)"
| "t_step s (Expire i) = (if i < NUM_PHILOSOPHERS then t_expire (t_pcs s ! i) i s else None)"

fun t_run :: "t_state \<Rightarrow> t_sched list \<Rightarrow> t_state" where
  "t_run s [] = s"
| "t_run s (e # es) = (case t_step s e of None \<Rightarrow> t_run s es | Some s' \<Rightarrow> t_run s' es)"

text \<open>
  The state \<^verbatim>\<open>demonstrate\<close> starts the threads in: every mutex free, both counters
  zero, every thread at its loop head with \<^verbatim>\<open>meals_eaten = 0\<close> and \<^verbatim>\<open>attempts = 0\<close>.
\<close>

definition t_init :: t_state where
  "t_init = \<lparr>t_chopsticks = replicate NUM_PHILOSOPHERS False,
             successful_meals = 0, timeouts = 0,
             t_pcs = replicate NUM_PHILOSOPHERS T_LoopHead,
             meals_eaten = replicate NUM_PHILOSOPHERS 0,
             attempts = replicate NUM_PHILOSOPHERS 0,
             t_log = []\<rparr>"

text \<open>The per-thread invariant of the two local counters, by program counter.\<close>

fun t_ok :: "t_pc \<Rightarrow> nat \<Rightarrow> nat \<Rightarrow> bool" where
  "t_ok T_LoopHead m a = (m \<le> 3 \<and> m \<le> a \<and> a \<le> 10)"
| "t_ok T_Eat m a = (m \<le> 3 \<and> m \<le> a \<and> a \<le> 10)"
| "t_ok T_UnlockRight m a = (m \<le> 3 \<and> m \<le> a \<and> a \<le> 10)"
| "t_ok T_UnlockLeft m a = (m \<le> 3 \<and> m \<le> a \<and> a \<le> 10)"
| "t_ok T_Done m a = (m \<le> 3 \<and> m \<le> a \<and> a \<le> 10 \<and> (m = 3 \<or> a = 10))"
| "t_ok p m a = (m < 3 \<and> m < a \<and> a \<le> 10)"

definition t_inv :: "t_state \<Rightarrow> bool" where
  "t_inv s \<longleftrightarrow>
     length (t_pcs s) = NUM_PHILOSOPHERS \<and>
     length (meals_eaten s) = NUM_PHILOSOPHERS \<and>
     length (attempts s) = NUM_PHILOSOPHERS \<and>
     (\<forall>i < NUM_PHILOSOPHERS. t_ok (t_pcs s ! i) (meals_eaten s ! i) (attempts s ! i))"

lemma t_ok_weaken: "t_ok p m a \<Longrightarrow> m \<le> 3 \<and> m \<le> a \<and> a \<le> 10"
  by (cases p) auto

lemma t_inv_init: "t_inv t_init"
  by (simp add: t_inv_def t_init_def)

lemma t_exec_inv:
  assumes "t_inv s" "i < NUM_PHILOSOPHERS" "t_exec (t_pcs s ! i) i s = Some s'"
  shows "t_inv s'"
proof -
  have ok: "t_ok (t_pcs s ! i) (meals_eaten s ! i) (attempts s ! i)"
    using assms(1,2) by (simp add: t_inv_def)
  show ?thesis
    using assms ok
    by (cases "t_pcs s ! i")
       (auto simp: t_inv_def t_goto_def t_emit_def nth_list_update split: if_splits)
qed

lemma t_expire_inv:
  assumes "t_inv s" "i < NUM_PHILOSOPHERS" "t_expire (t_pcs s ! i) i s = Some s'"
  shows "t_inv s'"
proof -
  have ok: "t_ok (t_pcs s ! i) (meals_eaten s ! i) (attempts s ! i)"
    using assms(1,2) by (simp add: t_inv_def)
  show ?thesis
    using assms ok
    by (cases "t_pcs s ! i")
       (auto simp: t_inv_def t_goto_def t_emit_def nth_list_update split: if_splits)
qed

lemma t_step_inv: "t_inv s \<Longrightarrow> t_step s e = Some s' \<Longrightarrow> t_inv s'"
  by (cases e) (auto intro: t_exec_inv t_expire_inv split: if_splits)

lemma t_run_inv: "t_inv s \<Longrightarrow> t_inv (t_run s es)"
  by (induction es arbitrary: s) (auto split: option.splits dest: t_step_inv)

lemma t_reach_inv: "t_inv (t_run t_init es)"
  by (rule t_run_inv [OF t_inv_init])


subsection \<open>The two local counters and the log\<close>

text \<open>
  The number of loop iterations a thread has begun and the number of its meals can be read
  off the log: they are the thread's two local counters.
\<close>

definition t_cnt_inv :: "t_state \<Rightarrow> bool" where
  "t_cnt_inv s \<longleftrightarrow>
     (\<forall>i < NUM_PHILOSOPHERS.
        count_list (t_log s) (T_Begin i) = attempts s ! i \<and>
        count_list (t_log s) (T_Success i) = meals_eaten s ! i)"

lemma count_list_snoc: "count_list (xs @ [y]) x = count_list xs x + (if x = y then 1 else 0)"
  by (induction xs) auto

lemma t_cnt_inv_init: "t_cnt_inv t_init"
  by (simp add: t_cnt_inv_def t_init_def)

lemma t_exec_cnt_inv:
  assumes "t_inv s" "t_cnt_inv s" "i < NUM_PHILOSOPHERS" "t_exec (t_pcs s ! i) i s = Some s'"
  shows "t_cnt_inv s'"
  using assms
  by (cases "t_pcs s ! i")
     (auto simp: t_inv_def t_cnt_inv_def t_goto_def t_emit_def nth_list_update count_list_snoc
           split: if_splits)

lemma t_expire_cnt_inv:
  assumes "t_inv s" "t_cnt_inv s" "i < NUM_PHILOSOPHERS" "t_expire (t_pcs s ! i) i s = Some s'"
  shows "t_cnt_inv s'"
  using assms
  by (cases "t_pcs s ! i")
     (auto simp: t_inv_def t_cnt_inv_def t_goto_def t_emit_def nth_list_update count_list_snoc
           split: if_splits)

lemma t_step_cnt_inv: "t_inv s \<Longrightarrow> t_cnt_inv s \<Longrightarrow> t_step s e = Some s' \<Longrightarrow> t_cnt_inv s'"
  by (cases e) (auto intro: t_exec_cnt_inv t_expire_cnt_inv split: if_splits)

lemma t_run_cnt_inv: "t_inv s \<Longrightarrow> t_cnt_inv s \<Longrightarrow> t_cnt_inv (t_run s es)"
proof (induction es arbitrary: s)
  case Nil
  then show ?case by simp
next
  case (Cons e es)
  show ?case
  proof (cases "t_step s e")
    case None
    then show ?thesis using Cons by simp
  next
    case (Some s')
    then show ?thesis
      using Cons.IH [of s'] Cons.prems t_step_inv [of s e s'] t_step_cnt_inv [of s e s']
      by simp
  qed
qed

lemma t_reach_cnt_inv: "t_cnt_inv (t_run t_init es)"
  by (rule t_run_cnt_inv [OF t_inv_init t_cnt_inv_init])

subsection \<open>Every thread stops\<close>

text \<open>
  The steps thread \<open>i\<close> takes in a run, and a bound on the steps it still can take:
  nine steps at most for each of the iterations the attempt budget leaves, and the exit.
\<close>

fun t_who :: "t_sched \<Rightarrow> nat" where
  "t_who (Run i) = i"
| "t_who (Expire i) = i"

fun t_steps_of :: "nat \<Rightarrow> t_state \<Rightarrow> t_sched list \<Rightarrow> nat" where
  "t_steps_of i s [] = 0"
| "t_steps_of i s (e # es) =
     (case t_step s e of
        None \<Rightarrow> t_steps_of i s es
      | Some s' \<Rightarrow> (if t_who e = i then 1 else 0) + t_steps_of i s' es)"

fun t_rank :: "t_pc \<Rightarrow> nat" where
  "t_rank T_Done = 0"
| "t_rank T_LoopHead = 1"
| "t_rank T_Think = 9"
| "t_rank T_TryFirst = 8"
| "t_rank T_TrySecond = 7"
| "t_rank T_Count = 6"
| "t_rank T_Eat = 5"
| "t_rank T_UnlockRight = 4"
| "t_rank T_UnlockLeft = 3"
| "t_rank T_Backoff = 3"

definition t_fuel :: "t_state \<Rightarrow> nat \<Rightarrow> nat" where
  "t_fuel s i =
     (if t_pcs s ! i = T_Done then 0 else (10 - attempts s ! i) * 9 + t_rank (t_pcs s ! i))"

lemma t_exec_fuel:
  assumes "t_inv s" "i < NUM_PHILOSOPHERS" "t_exec (t_pcs s ! i) i s = Some s'"
  shows "t_fuel s' i < t_fuel s i" and "j \<noteq> i \<Longrightarrow> t_fuel s' j = t_fuel s j"
  using assms
  by (cases "t_pcs s ! i";
      auto simp: t_inv_def t_fuel_def t_goto_def t_emit_def nth_list_update split: if_splits)+

lemma t_expire_fuel:
  assumes "t_inv s" "i < NUM_PHILOSOPHERS" "t_expire (t_pcs s ! i) i s = Some s'"
  shows "t_fuel s' i < t_fuel s i" and "j \<noteq> i \<Longrightarrow> t_fuel s' j = t_fuel s j"
  using assms
  by (cases "t_pcs s ! i";
      auto simp: t_inv_def t_fuel_def t_goto_def t_emit_def nth_list_update split: if_splits)+

lemma t_step_fuel:
  assumes "t_inv s" "t_step s e = Some s'"
  shows "(if t_who e = i then 1 else 0) + t_fuel s' i \<le> t_fuel s i"
proof (cases e)
  case (Run k)
  then have k: "k < NUM_PHILOSOPHERS" "t_exec (t_pcs s ! k) k s = Some s'"
    using assms(2) by (auto split: if_splits)
  show ?thesis
    using t_exec_fuel [OF assms(1) k] Run by (cases "i = k") auto
next
  case (Expire k)
  then have k: "k < NUM_PHILOSOPHERS" "t_expire (t_pcs s ! k) k s = Some s'"
    using assms(2) by (auto split: if_splits)
  show ?thesis
    using t_expire_fuel [OF assms(1) k] Expire by (cases "i = k") auto
qed

lemma t_steps_of_fuel: "t_inv s \<Longrightarrow> t_steps_of i s es + t_fuel (t_run s es) i \<le> t_fuel s i"
proof (induction es arbitrary: s)
  case Nil
  then show ?case by simp
next
  case (Cons e es)
  show ?case
  proof (cases "t_step s e")
    case None
    then show ?thesis using Cons by simp
  next
    case (Some s')
    have "t_inv s'" using Cons.prems Some by (rule t_step_inv)
    then have "t_steps_of i s' es + t_fuel (t_run s' es) i \<le> t_fuel s' i"
      by (rule Cons.IH)
    moreover have "(if t_who e = i then 1 else 0) + t_fuel s' i \<le> t_fuel s i"
      using Cons.prems Some by (rule t_step_fuel)
    ultimately show ?thesis using Some by simp
  qed
qed

lemma t_fuel_init: "i < NUM_PHILOSOPHERS \<Longrightarrow> t_fuel t_init i = 91"
  by (simp add: t_fuel_def t_init_def)

lemma t_never_stuck:
  assumes "i < NUM_PHILOSOPHERS" "t_pcs s ! i \<noteq> T_Done"
  shows "t_step s (Run i) \<noteq> None \<or> t_step s (Expire i) \<noteq> None"
  using assms by (cases "t_pcs s ! i") auto

lemmas t_eval =
  t_init_def NUM_PHILOSOPHERS_def t_goto_def t_emit_def t_left_def t_right_def t_order_def

subsection \<open>Claims about the attempt budget\<close>

text \<open>
  C10. In every state of every run of the Timeout strategy and for every philosopher:
  the meals eaten never exceed the attempts made, because every loop iteration, also one
  that ends in a meal, first takes one unit of the attempt budget (the iterations begun
  are exactly \<^verbatim>\<open>attempts\<close>, the meals counted are exactly \<^verbatim>\<open>meals_eaten\<close>); and
  a philosopher completes at most min(3, 10) meals.
\<close>

theorem t_meals_le_attempts:
  assumes "i < NUM_PHILOSOPHERS"
  shows "meals_eaten (t_run t_init es) ! i \<le> attempts (t_run t_init es) ! i \<and>
         meals_eaten (t_run t_init es) ! i \<le> min 3 10 \<and>
         count_list (t_log (t_run t_init es)) (T_Success i) = meals_eaten (t_run t_init es) ! i \<and>
         count_list (t_log (t_run t_init es)) (T_Begin i) = attempts (t_run t_init es) ! i \<and>
         count_list (t_log (t_run t_init es)) (T_Success i)
           \<le> count_list (t_log (t_run t_init es)) (T_Begin i)"
proof -
  let ?s = "t_run t_init es"
  have "t_ok (t_pcs ?s ! i) (meals_eaten ?s ! i) (attempts ?s ! i)"
    using t_reach_inv [of es] assms by (simp add: t_inv_def)
  then have "meals_eaten ?s ! i \<le> 3 \<and> meals_eaten ?s ! i \<le> attempts ?s ! i"
    using t_ok_weaken by blast
  moreover have "count_list (t_log ?s) (T_Success i) = meals_eaten ?s ! i"
    and "count_list (t_log ?s) (T_Begin i) = attempts ?s ! i"
    using t_reach_cnt_inv [of es] assms by (simp_all add: t_cnt_inv_def)
  ultimately show ?thesis by simp
qed

theorem t_meals_le_attempts_witness:
  "(0::nat) < NUM_PHILOSOPHERS \<and>
   meals_eaten (t_run t_init [Run 0, Run 0, Run 0, Run 0, Run 0, Run 0, Run 0, Run 0,
                              Run 0, Run 0, Expire 0]) ! 0 = 1 \<and>
   attempts (t_run t_init [Run 0, Run 0, Run 0, Run 0, Run 0, Run 0, Run 0, Run 0,
                           Run 0, Run 0, Expire 0]) ! 0 = 2 \<and>
   meals_eaten (t_run t_init [Run 0, Run 0, Run 0, Run 0, Run 0, Run 0, Run 0, Run 0,
                              Run 0, Run 0, Expire 0]) ! 0
     \<le> attempts (t_run t_init [Run 0, Run 0, Run 0, Run 0, Run 0, Run 0, Run 0, Run 0,
                                Run 0, Run 0, Expire 0]) ! 0"
proof -
  have h: "(0::nat) < NUM_PHILOSOPHERS" by (simp add: NUM_PHILOSOPHERS_def)
  show ?thesis
    using h t_meals_le_attempts [OF h, of "[Run 0, Run 0, Run 0, Run 0, Run 0, Run 0, Run 0,
                                             Run 0, Run 0, Run 0, Expire 0]"]
    by (simp add: t_eval)
qed

text \<open>
  C5. In every run of the Timeout strategy, for every philosopher: the attempt counter
  equals the number of loop iterations begun and is at most 10; the loop condition
  \<^verbatim>\<open>meals_eaten < 3 && attempts < 10\<close> is decided at the loop head, where the thread
  either begins an iteration or finishes; a finished thread with fewer than 3 meals has
  made exactly 10 attempts; a thread that has not finished can always take a step, and
  in the whole run it takes at most 91 steps: the loop terminates.
\<close>

theorem t_loop_terminates:
  assumes "i < NUM_PHILOSOPHERS"
  shows "attempts (t_run t_init es) ! i \<le> 10 \<and>
         count_list (t_log (t_run t_init es)) (T_Begin i) = attempts (t_run t_init es) ! i \<and>
         (t_pcs (t_run t_init es) ! i = T_LoopHead \<longrightarrow>
            (\<exists>s'. t_step (t_run t_init es) (Run i) = Some s' \<and>
                  t_pcs s' ! i =
                    (if meals_eaten (t_run t_init es) ! i < 3 \<and> attempts (t_run t_init es) ! i < 10
                     then T_Think else T_Done) \<and>
                  attempts s' ! i =
                    (if meals_eaten (t_run t_init es) ! i < 3 \<and> attempts (t_run t_init es) ! i < 10
                     then attempts (t_run t_init es) ! i + 1 else attempts (t_run t_init es) ! i))) \<and>
         (t_pcs (t_run t_init es) ! i = T_Done \<and> meals_eaten (t_run t_init es) ! i < 3 \<longrightarrow>
            attempts (t_run t_init es) ! i = 10) \<and>
         (t_pcs (t_run t_init es) ! i \<noteq> T_Done \<longrightarrow>
            t_step (t_run t_init es) (Run i) \<noteq> None \<or>
            t_step (t_run t_init es) (Expire i) \<noteq> None) \<and>
         t_steps_of i t_init es \<le> 91"
proof -
  let ?s = "t_run t_init es"
  have inv: "t_inv ?s" by (rule t_reach_inv)
  have ok: "t_ok (t_pcs ?s ! i) (meals_eaten ?s ! i) (attempts ?s ! i)"
    using inv assms by (simp add: t_inv_def)
  have len: "i < length (t_pcs ?s)" "i < length (attempts ?s)"
    using inv assms by (simp_all add: t_inv_def)
  have a: "attempts ?s ! i \<le> 10"
    using ok t_ok_weaken by blast
  have b: "count_list (t_log ?s) (T_Begin i) = attempts ?s ! i"
    using t_reach_cnt_inv [of es] assms by (simp add: t_cnt_inv_def)
  have c: "t_pcs ?s ! i = T_LoopHead \<longrightarrow>
            (\<exists>s'. t_step ?s (Run i) = Some s' \<and>
                  t_pcs s' ! i =
                    (if meals_eaten ?s ! i < 3 \<and> attempts ?s ! i < 10 then T_Think else T_Done) \<and>
                  attempts s' ! i =
                    (if meals_eaten ?s ! i < 3 \<and> attempts ?s ! i < 10
                     then attempts ?s ! i + 1 else attempts ?s ! i))"
    using assms len by (auto simp: t_goto_def t_emit_def)
  have d: "t_pcs ?s ! i = T_Done \<and> meals_eaten ?s ! i < 3 \<longrightarrow> attempts ?s ! i = 10"
    using ok by auto
  have e: "t_pcs ?s ! i \<noteq> T_Done \<longrightarrow> t_step ?s (Run i) \<noteq> None \<or> t_step ?s (Expire i) \<noteq> None"
    using t_never_stuck [OF assms] by blast
  have "t_steps_of i t_init es + t_fuel ?s i \<le> t_fuel t_init i"
    by (rule t_steps_of_fuel [OF t_inv_init])
  then have f: "t_steps_of i t_init es \<le> 91"
    using t_fuel_init [OF assms] by simp
  show ?thesis using a b c d e f by blast
qed

theorem t_loop_terminates_witness:
  "(0::nat) < NUM_PHILOSOPHERS \<and>
   t_pcs (t_run t_init
     [Run 0, Run 0, Expire 0, Run 0, Run 0, Expire 0, Run 0, Run 0, Expire 0,
      Run 0, Run 0, Expire 0, Run 0, Run 0, Expire 0, Run 0, Run 0, Expire 0,
      Run 0, Run 0, Expire 0, Run 0, Run 0, Expire 0, Run 0, Run 0, Expire 0,
      Run 0, Run 0, Expire 0, Run 0]) ! 0 = T_Done \<and>
   meals_eaten (t_run t_init
     [Run 0, Run 0, Expire 0, Run 0, Run 0, Expire 0, Run 0, Run 0, Expire 0,
      Run 0, Run 0, Expire 0, Run 0, Run 0, Expire 0, Run 0, Run 0, Expire 0,
      Run 0, Run 0, Expire 0, Run 0, Run 0, Expire 0, Run 0, Run 0, Expire 0,
      Run 0, Run 0, Expire 0, Run 0]) ! 0 < 3 \<and>
   attempts (t_run t_init
     [Run 0, Run 0, Expire 0, Run 0, Run 0, Expire 0, Run 0, Run 0, Expire 0,
      Run 0, Run 0, Expire 0, Run 0, Run 0, Expire 0, Run 0, Run 0, Expire 0,
      Run 0, Run 0, Expire 0, Run 0, Run 0, Expire 0, Run 0, Run 0, Expire 0,
      Run 0, Run 0, Expire 0, Run 0]) ! 0 = 10 \<and>
   t_pcs (t_run t_init [Run 1, Run 1]) ! 1 \<noteq> T_Done \<and>
   t_step (t_run t_init [Run 1, Run 1]) (Run 1) \<noteq> None \<and>
   t_pcs (t_run t_init []) ! 0 = T_LoopHead \<and>
   t_steps_of 1 t_init [Run 1, Run 1] \<le> 91"
proof -
  have h: "(0::nat) < NUM_PHILOSOPHERS" "(1::nat) < NUM_PHILOSOPHERS"
    by (simp_all add: NUM_PHILOSOPHERS_def)
  show ?thesis
    using h
      t_loop_terminates [OF h(1), of
        "[Run 0, Run 0, Expire 0, Run 0, Run 0, Expire 0, Run 0, Run 0, Expire 0,
          Run 0, Run 0, Expire 0, Run 0, Run 0, Expire 0, Run 0, Run 0, Expire 0,
          Run 0, Run 0, Expire 0, Run 0, Run 0, Expire 0, Run 0, Run 0, Expire 0,
          Run 0, Run 0, Expire 0, Run 0]"]
      t_loop_terminates [OF h(2), of "[Run 1, Run 1]"]
      t_loop_terminates [OF h(1), of "[]"]
    by (simp add: t_eval)
qed

subsection \<open>The order of acquisition\<close>

fun t_actor :: "t_event \<Rightarrow> nat" where
  "t_actor (T_Begin i) = i"
| "t_actor (T_Lock i c) = i"
| "t_actor (T_Success i) = i"
| "t_actor (T_Consume i) = i"
| "t_actor (T_Unlock i c) = i"
| "t_actor (T_TimedOut i) = i"

definition t_proj :: "nat \<Rightarrow> t_event list \<Rightarrow> t_event list" where
  "t_proj i evs = filter (\<lambda>e. t_actor e = i) evs"

text \<open>
  The chopsticks a thread holds after the events of its log, in the order it took them,
  and the check of a thread's log: what it locks while holding nothing is the lower of its
  two chopsticks, what it locks while holding that one is the higher, and it eats holding
  exactly these two, taken in this order.
\<close>

fun t_held :: "nat list \<Rightarrow> t_event list \<Rightarrow> nat list" where
  "t_held held [] = held"
| "t_held held (T_Lock i c # evs) = t_held (held @ [c]) evs"
| "t_held held (T_Unlock i c # evs) = t_held (removeAll c held) evs"
| "t_held held (e # evs) = t_held held evs"

fun t_ascending :: "nat \<Rightarrow> nat list \<Rightarrow> t_event list \<Rightarrow> bool" where
  "t_ascending pid held [] = True"
| "t_ascending pid held (T_Lock i c # evs) =
     ((held = [] \<and> c = min pid ((pid + 1) mod NUM_PHILOSOPHERS) \<or>
       held = [min pid ((pid + 1) mod NUM_PHILOSOPHERS)] \<and>
         c = max pid ((pid + 1) mod NUM_PHILOSOPHERS)) \<and>
      t_ascending pid (held @ [c]) evs)"
| "t_ascending pid held (T_Unlock i c # evs) = t_ascending pid (removeAll c held) evs"
| "t_ascending pid held (T_Consume i # evs) =
     (held = [min pid ((pid + 1) mod NUM_PHILOSOPHERS), max pid ((pid + 1) mod NUM_PHILOSOPHERS)] \<and>
      t_ascending pid held evs)"
| "t_ascending pid held (e # evs) = t_ascending pid held evs"

fun t_holding :: "t_pc \<Rightarrow> nat \<Rightarrow> nat list" where
  "t_holding T_TrySecond i = [t_left i]"
| "t_holding T_Backoff i = [t_left i]"
| "t_holding T_UnlockLeft i = [t_left i]"
| "t_holding T_Count i = [t_left i, t_right i]"
| "t_holding T_Eat i = [t_left i, t_right i]"
| "t_holding T_UnlockRight i = [t_left i, t_right i]"
| "t_holding p i = []"

definition t_ord_ok :: "t_state \<Rightarrow> nat \<Rightarrow> bool" where
  "t_ord_ok s i \<longleftrightarrow>
     t_ascending i [] (t_proj i (t_log s)) \<and>
     t_held [] (t_proj i (t_log s)) = t_holding (t_pcs s ! i) i"

lemma t_held_append: "t_held held (xs @ ys) = t_held (t_held held xs) ys"
  by (induction held xs rule: t_held.induct) auto

lemma t_ascending_append:
  "t_ascending pid held (xs @ ys) \<longleftrightarrow>
     t_ascending pid held xs \<and> t_ascending pid (t_held held xs) ys"
  by (induction pid held xs rule: t_ascending.induct) auto

lemma t_proj_snoc:
  "t_proj i (evs @ [e]) = (if t_actor e = i then t_proj i evs @ [e] else t_proj i evs)"
  by (simp add: t_proj_def)

lemma t_left_min: "t_left i = min i ((i + 1) mod NUM_PHILOSOPHERS)"
  by (auto simp: t_left_def t_order_def Let_def)

lemma t_right_max: "t_right i = max i ((i + 1) mod NUM_PHILOSOPHERS)"
  by (auto simp: t_right_def t_order_def Let_def)

lemma t_left_less_right: "i < NUM_PHILOSOPHERS \<Longrightarrow> t_left i < t_right i"
  unfolding t_left_min t_right_max NUM_PHILOSOPHERS_def
  by (auto simp: mod_Suc)

lemma t_exec_ord_self:
  assumes "t_inv s" "t_ord_ok s i" "i < NUM_PHILOSOPHERS" "t_exec (t_pcs s ! i) i s = Some s'"
  shows "t_ord_ok s' i"
proof -
  have ne: "t_left i \<noteq> t_right i" using t_left_less_right [OF assms(3)] by simp
  have len: "i < length (t_pcs s)" using assms(1,3) by (simp add: t_inv_def)
  have mm: "min i ((i + 1) mod NUM_PHILOSOPHERS) = t_left i"
    "max i ((i + 1) mod NUM_PHILOSOPHERS) = t_right i"
    by (simp_all add: t_left_min t_right_max)
  show ?thesis
    using assms(2,4) ne len mm
    by (cases "t_pcs s ! i")
       (auto simp: t_ord_ok_def t_goto_def t_emit_def t_proj_snoc t_ascending_append
                   t_held_append split: if_splits)
qed

lemma t_expire_ord_self:
  assumes "t_inv s" "t_ord_ok s i" "i < NUM_PHILOSOPHERS" "t_expire (t_pcs s ! i) i s = Some s'"
  shows "t_ord_ok s' i"
proof -
  have len: "i < length (t_pcs s)" using assms(1,3) by (simp add: t_inv_def)
  show ?thesis
    using assms(2,4) len
    by (cases "t_pcs s ! i")
       (auto simp: t_ord_ok_def t_goto_def t_emit_def t_proj_snoc t_ascending_append
                   t_held_append split: if_splits)
qed

text \<open>A step of thread \<open>i\<close> leaves the program counter and the log of every other thread alone.\<close>

lemma t_exec_frame:
  assumes "t_exec (t_pcs s ! i) i s = Some s'" "j \<noteq> i"
  shows "t_pcs s' ! j = t_pcs s ! j \<and> t_proj j (t_log s') = t_proj j (t_log s)"
  using assms
  by (cases "t_pcs s ! i") (auto simp: t_goto_def t_emit_def t_proj_snoc split: if_splits)

lemma t_expire_frame:
  assumes "t_expire (t_pcs s ! i) i s = Some s'" "j \<noteq> i"
  shows "t_pcs s' ! j = t_pcs s ! j \<and> t_proj j (t_log s') = t_proj j (t_log s)"
  using assms
  by (cases "t_pcs s ! i") (auto simp: t_goto_def t_emit_def t_proj_snoc split: if_splits)

lemma t_step_ord:
  assumes "t_inv s" "t_ord_ok s j" "j < NUM_PHILOSOPHERS" "t_step s e = Some s'"
  shows "t_ord_ok s' j"
proof (cases e)
  case (Run k)
  then have k: "k < NUM_PHILOSOPHERS" "t_exec (t_pcs s ! k) k s = Some s'"
    using assms(4) by (auto split: if_splits)
  show ?thesis
  proof (cases "j = k")
    case True
    then show ?thesis using t_exec_ord_self [OF assms(1) _ k] assms(2) by simp
  next
    case False
    then show ?thesis using t_exec_frame [OF k(2), of j] assms(2) by (simp add: t_ord_ok_def)
  qed
next
  case (Expire k)
  then have k: "k < NUM_PHILOSOPHERS" "t_expire (t_pcs s ! k) k s = Some s'"
    using assms(4) by (auto split: if_splits)
  show ?thesis
  proof (cases "j = k")
    case True
    then show ?thesis using t_expire_ord_self [OF assms(1) _ k] assms(2) by simp
  next
    case False
    then show ?thesis using t_expire_frame [OF k(2), of j] assms(2) by (simp add: t_ord_ok_def)
  qed
qed

lemma t_run_ord:
  "t_inv s \<Longrightarrow> t_ord_ok s j \<Longrightarrow> j < NUM_PHILOSOPHERS \<Longrightarrow> t_ord_ok (t_run s es) j"
proof (induction es arbitrary: s)
  case Nil
  then show ?case by simp
next
  case (Cons e es)
  show ?case
  proof (cases "t_step s e")
    case None
    then show ?thesis using Cons by simp
  next
    case (Some s')
    then show ?thesis
      using Cons.IH [of s'] Cons.prems t_step_inv [of s e s'] t_step_ord [of s j e s']
      by simp
  qed
qed

lemma t_ord_init: "j < NUM_PHILOSOPHERS \<Longrightarrow> t_ord_ok t_init j"
  by (simp add: t_ord_ok_def t_init_def t_proj_def)

subsection \<open>The mutexes and the log\<close>

text \<open>
  The mutex array against the program counters: a mutex is locked exactly when some
  thread is at a statement where it holds that mutex, and no mutex has two holders.
\<close>

definition t_own_ok :: "bool list \<Rightarrow> t_pc list \<Rightarrow> bool" where
  "t_own_ok cs ps \<longleftrightarrow>
     length cs = NUM_PHILOSOPHERS \<and>
     (\<forall>c < NUM_PHILOSOPHERS. cs ! c = (\<exists>i < NUM_PHILOSOPHERS. c \<in> set (t_holding (ps ! i) i))) \<and>
     (\<forall>i < NUM_PHILOSOPHERS. \<forall>j < NUM_PHILOSOPHERS. \<forall>c.
        c \<in> set (t_holding (ps ! i) i) \<and> c \<in> set (t_holding (ps ! j) j) \<longrightarrow> i = j)"

lemma t_left_less: "i < NUM_PHILOSOPHERS \<Longrightarrow> t_left i < NUM_PHILOSOPHERS"
  unfolding t_left_min by simp

lemma t_right_less: "i < NUM_PHILOSOPHERS \<Longrightarrow> t_right i < NUM_PHILOSOPHERS"
  unfolding t_right_max by (simp add: NUM_PHILOSOPHERS_def)

lemma t_own_stay:
  assumes ok: "t_own_ok cs ps" and len: "length ps = NUM_PHILOSOPHERS"
    and i: "i < NUM_PHILOSOPHERS"
    and own: "set (t_holding p' i) = set (t_holding (ps ! i) i)"
  shows "t_own_ok cs (ps[i := p'])"
proof -
  have "\<And>j c. j < NUM_PHILOSOPHERS \<Longrightarrow>
          (c \<in> set (t_holding (ps[i := p'] ! j) j)) = (c \<in> set (t_holding (ps ! j) j))"
    using own len i by (auto simp: nth_list_update)
  then show ?thesis using ok by (simp add: t_own_ok_def cong: conj_cong)
qed

lemma t_own_lock:
  assumes ok: "t_own_ok cs ps" and len: "length ps = NUM_PHILOSOPHERS"
    and i: "i < NUM_PHILOSOPHERS" and c0: "c0 < NUM_PHILOSOPHERS"
    and free: "\<not> cs ! c0"
    and own: "set (t_holding p' i) = insert c0 (set (t_holding (ps ! i) i))"
  shows "t_own_ok (cs[c0 := True]) (ps[i := p'])"
proof -
  let ?ps = "ps[i := p']"
  have lcs: "length cs = NUM_PHILOSOPHERS"
    and C: "\<forall>c < NUM_PHILOSOPHERS.
              cs ! c = (\<exists>j < NUM_PHILOSOPHERS. c \<in> set (t_holding (ps ! j) j))"
    and D: "\<forall>j < NUM_PHILOSOPHERS. \<forall>k < NUM_PHILOSOPHERS. \<forall>c.
        c \<in> set (t_holding (ps ! j) j) \<and> c \<in> set (t_holding (ps ! k) k) \<longrightarrow> j = k"
    using ok by (simp_all add: t_own_ok_def)
  have noown: "\<forall>j < NUM_PHILOSOPHERS. c0 \<notin> set (t_holding (ps ! j) j)"
    using C c0 free by blast
  have ownj: "\<And>j c. j < NUM_PHILOSOPHERS \<Longrightarrow>
        (c \<in> set (t_holding (?ps ! j) j))
          = (c \<in> set (t_holding (ps ! j) j) \<or> (j = i \<and> c = c0))"
    using own len i by (auto simp: nth_list_update)
  have C': "\<forall>c < NUM_PHILOSOPHERS.
        cs[c0 := True] ! c = (\<exists>j < NUM_PHILOSOPHERS. c \<in> set (t_holding (?ps ! j) j))"
  proof (intro allI impI)
    fix c assume c: "c < NUM_PHILOSOPHERS"
    show "cs[c0 := True] ! c = (\<exists>j < NUM_PHILOSOPHERS. c \<in> set (t_holding (?ps ! j) j))"
    proof (cases "c = c0")
      case True
      then show ?thesis using ownj [OF i, of c0] i c lcs by auto
    next
      case False
      then show ?thesis using C c ownj lcs by (simp cong: conj_cong)
    qed
  qed
  have D': "\<forall>j < NUM_PHILOSOPHERS. \<forall>k < NUM_PHILOSOPHERS. \<forall>c.
        c \<in> set (t_holding (?ps ! j) j) \<and> c \<in> set (t_holding (?ps ! k) k) \<longrightarrow> j = k"
  proof (intro allI impI)
    fix j k c
    assume j: "j < NUM_PHILOSOPHERS" and k: "k < NUM_PHILOSOPHERS"
      and o: "c \<in> set (t_holding (?ps ! j) j) \<and> c \<in> set (t_holding (?ps ! k) k)"
    show "j = k"
    proof (cases "c = c0")
      case True
      then show ?thesis using o ownj [OF j, of c] ownj [OF k, of c] noown j k by auto
    next
      case False
      then show ?thesis using o ownj [OF j, of c] ownj [OF k, of c] D j k by auto
    qed
  qed
  show ?thesis unfolding t_own_ok_def using lcs C' D' by simp
qed

lemma t_own_unlock:
  assumes ok: "t_own_ok cs ps" and len: "length ps = NUM_PHILOSOPHERS"
    and i: "i < NUM_PHILOSOPHERS" and c0: "c0 < NUM_PHILOSOPHERS"
    and mine: "c0 \<in> set (t_holding (ps ! i) i)"
    and own: "set (t_holding p' i) = set (t_holding (ps ! i) i) - {c0}"
  shows "t_own_ok (cs[c0 := False]) (ps[i := p'])"
proof -
  let ?ps = "ps[i := p']"
  have lcs: "length cs = NUM_PHILOSOPHERS"
    and C: "\<forall>c < NUM_PHILOSOPHERS.
              cs ! c = (\<exists>j < NUM_PHILOSOPHERS. c \<in> set (t_holding (ps ! j) j))"
    and D: "\<forall>j < NUM_PHILOSOPHERS. \<forall>k < NUM_PHILOSOPHERS. \<forall>c.
        c \<in> set (t_holding (ps ! j) j) \<and> c \<in> set (t_holding (ps ! k) k) \<longrightarrow> j = k"
    using ok by (simp_all add: t_own_ok_def)
  have only: "\<forall>j < NUM_PHILOSOPHERS. c0 \<in> set (t_holding (ps ! j) j) \<longrightarrow> j = i"
    using D mine i by blast
  have ownj: "\<And>j c. j < NUM_PHILOSOPHERS \<Longrightarrow>
        (c \<in> set (t_holding (?ps ! j) j))
          = (c \<in> set (t_holding (ps ! j) j) \<and> \<not> (j = i \<and> c = c0))"
    using own len i by (auto simp: nth_list_update)
  have C': "\<forall>c < NUM_PHILOSOPHERS.
        cs[c0 := False] ! c = (\<exists>j < NUM_PHILOSOPHERS. c \<in> set (t_holding (?ps ! j) j))"
  proof (intro allI impI)
    fix c assume c: "c < NUM_PHILOSOPHERS"
    show "cs[c0 := False] ! c = (\<exists>j < NUM_PHILOSOPHERS. c \<in> set (t_holding (?ps ! j) j))"
    proof (cases "c = c0")
      case True
      then show ?thesis using ownj only c lcs by auto
    next
      case False
      then show ?thesis using C c ownj lcs by (simp cong: conj_cong)
    qed
  qed
  have D': "\<forall>j < NUM_PHILOSOPHERS. \<forall>k < NUM_PHILOSOPHERS. \<forall>c.
        c \<in> set (t_holding (?ps ! j) j) \<and> c \<in> set (t_holding (?ps ! k) k) \<longrightarrow> j = k"
    using D ownj by blast
  show ?thesis unfolding t_own_ok_def using lcs C' D' by simp
qed

lemma t_exec_own:
  assumes inv: "t_inv s" and ok: "t_own_ok (t_chopsticks s) (t_pcs s)"
    and i: "i < NUM_PHILOSOPHERS" and ex: "t_exec (t_pcs s ! i) i s = Some s'"
  shows "t_own_ok (t_chopsticks s') (t_pcs s')"
proof -
  have len: "length (t_pcs s) = NUM_PHILOSOPHERS"
    using inv by (simp add: t_inv_def)
  have lr: "t_left i < NUM_PHILOSOPHERS" "t_right i < NUM_PHILOSOPHERS" "t_left i \<noteq> t_right i"
    using i t_left_less_right [OF i] by (simp_all add: t_left_less t_right_less)
  note stay = t_own_stay [OF ok len i]
  note lock = t_own_lock [OF ok len i]
  note unlock = t_own_unlock [OF ok len i]
  show ?thesis
  proof (cases "t_pcs s ! i")
    case T_LoopHead
    then show ?thesis using ex stay [of T_Think] stay [of T_Done]
      by (auto simp: t_goto_def t_emit_def split: if_splits)
  next
    case T_Think
    then show ?thesis using ex stay [of T_TryFirst] by (auto simp: t_goto_def)
  next
    case T_TryFirst
    then show ?thesis using ex lock [OF lr(1), of T_TrySecond]
      by (auto simp: t_goto_def t_emit_def split: if_splits)
  next
    case T_TrySecond
    have "set (t_holding T_Count i) = insert (t_right i) (set (t_holding (t_pcs s ! i) i))"
      using T_TrySecond by auto
    then have "\<not> t_chopsticks s ! t_right i \<Longrightarrow>
        t_own_ok ((t_chopsticks s)[t_right i := True]) ((t_pcs s)[i := T_Count])"
      by (intro lock [OF lr(2)]) auto
    then show ?thesis using ex T_TrySecond
      by (auto simp: t_goto_def t_emit_def split: if_splits)
  next
    case T_Count
    then show ?thesis using ex stay [of T_Eat] by (auto simp: t_goto_def t_emit_def)
  next
    case T_Eat
    then show ?thesis using ex stay [of T_UnlockRight] by (auto simp: t_goto_def t_emit_def)
  next
    case T_UnlockRight
    have "set (t_holding T_UnlockLeft i) = set (t_holding (t_pcs s ! i) i) - {t_right i}"
      using T_UnlockRight lr(3) by auto
    then have "t_own_ok ((t_chopsticks s)[t_right i := False]) ((t_pcs s)[i := T_UnlockLeft])"
      using T_UnlockRight by (intro unlock [OF lr(2)]) auto
    then show ?thesis using ex T_UnlockRight by (auto simp: t_goto_def t_emit_def)
  next
    case T_UnlockLeft
    have "set (t_holding T_LoopHead i) = set (t_holding (t_pcs s ! i) i) - {t_left i}"
      using T_UnlockLeft by auto
    then have "t_own_ok ((t_chopsticks s)[t_left i := False]) ((t_pcs s)[i := T_LoopHead])"
      using T_UnlockLeft by (intro unlock [OF lr(1)]) auto
    then show ?thesis using ex T_UnlockLeft by (auto simp: t_goto_def t_emit_def)
  next
    case T_Backoff
    have "set (t_holding T_LoopHead i) = set (t_holding (t_pcs s ! i) i) - {t_left i}"
      using T_Backoff by auto
    then have "t_own_ok ((t_chopsticks s)[t_left i := False]) ((t_pcs s)[i := T_LoopHead])"
      using T_Backoff by (intro unlock [OF lr(1)]) auto
    then show ?thesis using ex T_Backoff by (auto simp: t_goto_def t_emit_def)
  next
    case T_Done
    then show ?thesis using ex by simp
  qed
qed

lemma t_expire_own:
  assumes inv: "t_inv s" and ok: "t_own_ok (t_chopsticks s) (t_pcs s)"
    and i: "i < NUM_PHILOSOPHERS" and ex: "t_expire (t_pcs s ! i) i s = Some s'"
  shows "t_own_ok (t_chopsticks s') (t_pcs s')"
proof -
  have len: "length (t_pcs s) = NUM_PHILOSOPHERS"
    using inv by (simp add: t_inv_def)
  note stay = t_own_stay [OF ok len i]
  show ?thesis
    using ex stay [of T_LoopHead] stay [of T_Backoff]
    by (cases "t_pcs s ! i") (auto simp: t_goto_def t_emit_def)
qed

lemma t_step_own:
  assumes "t_inv s" "t_own_ok (t_chopsticks s) (t_pcs s)" "t_step s e = Some s'"
  shows "t_own_ok (t_chopsticks s') (t_pcs s')"
proof (cases e)
  case (Run k)
  then have "k < NUM_PHILOSOPHERS" "t_exec (t_pcs s ! k) k s = Some s'"
    using assms(3) by (auto split: if_splits)
  with assms(1,2) show ?thesis by (rule t_exec_own)
next
  case (Expire k)
  then have "k < NUM_PHILOSOPHERS" "t_expire (t_pcs s ! k) k s = Some s'"
    using assms(3) by (auto split: if_splits)
  with assms(1,2) show ?thesis by (rule t_expire_own)
qed

lemma t_run_own:
  "t_inv s \<Longrightarrow> t_own_ok (t_chopsticks s) (t_pcs s) \<Longrightarrow>
     t_own_ok (t_chopsticks (t_run s es)) (t_pcs (t_run s es))"
proof (induction es arbitrary: s)
  case Nil
  then show ?case by simp
next
  case (Cons e es)
  show ?case
  proof (cases "t_step s e")
    case None
    then show ?thesis using Cons by simp
  next
    case (Some s')
    have "t_inv s'" using Cons.prems(1) Some by (rule t_step_inv)
    moreover have "t_own_ok (t_chopsticks s') (t_pcs s')"
      using Cons.prems Some by (rule t_step_own)
    ultimately show ?thesis using Cons.IH [of s'] Some by simp
  qed
qed

lemma t_own_init: "t_own_ok (t_chopsticks t_init) (t_pcs t_init)"
  by (simp add: t_own_ok_def t_init_def)

lemma t_reach_own: "t_own_ok (t_chopsticks (t_run t_init es)) (t_pcs (t_run t_init es))"
  by (rule t_run_own [OF t_inv_init t_own_init])

lemma t_own_locked:
  assumes "t_own_ok cs ps" "i < NUM_PHILOSOPHERS" "c < NUM_PHILOSOPHERS"
    and "c \<in> set (t_holding (ps ! i) i)"
  shows "cs ! c"
  using assms unfolding t_own_ok_def by blast

text \<open>
  What each event of the log does to the shared data and the counters; a lock of a locked
  mutex and an unlock of a free one are refused. Replaying the log of a run from the initial
  data gives the data of the state reached: the log records every change of the
  mutexes and the counters, in the order of the run.
\<close>

record t_data =
  d_chopsticks :: "bool list"
  d_meals_eaten :: "nat list"
  d_attempts :: "nat list"
  d_successful_meals :: nat
  d_timeouts :: nat

definition t_data_of :: "t_state \<Rightarrow> t_data" where
  "t_data_of s = \<lparr>d_chopsticks = t_chopsticks s, d_meals_eaten = meals_eaten s,
                  d_attempts = attempts s, d_successful_meals = successful_meals s,
                  d_timeouts = timeouts s\<rparr>"

fun t_apply :: "t_event \<Rightarrow> t_data \<Rightarrow> t_data option" where
  "t_apply (T_Begin i) d = Some (d\<lparr>d_attempts := (d_attempts d)[i := d_attempts d ! i + 1]\<rparr>)"
| "t_apply (T_Lock i c) d =
     (if d_chopsticks d ! c then None
      else Some (d\<lparr>d_chopsticks := (d_chopsticks d)[c := True]\<rparr>))"
| "t_apply (T_Success i) d =
     Some (d\<lparr>d_meals_eaten := (d_meals_eaten d)[i := d_meals_eaten d ! i + 1],
              d_successful_meals := d_successful_meals d + 1\<rparr>)"
| "t_apply (T_Consume i) d = Some d"
| "t_apply (T_Unlock i c) d =
     (if d_chopsticks d ! c then Some (d\<lparr>d_chopsticks := (d_chopsticks d)[c := False]\<rparr>)
      else None)"
| "t_apply (T_TimedOut i) d = Some (d\<lparr>d_timeouts := d_timeouts d + 1\<rparr>)"

fun t_replay :: "t_event list \<Rightarrow> t_data \<Rightarrow> t_data option" where
  "t_replay [] d = Some d"
| "t_replay (e # evs) d = (case t_apply e d of None \<Rightarrow> None | Some d' \<Rightarrow> t_replay evs d')"

lemma t_replay_snoc:
  "t_replay (evs @ [e]) d = (case t_replay evs d of None \<Rightarrow> None | Some d' \<Rightarrow> t_apply e d')"
  by (induction evs arbitrary: d) (auto split: option.splits)

definition t_replay_ok :: "t_state \<Rightarrow> bool" where
  "t_replay_ok s \<longleftrightarrow> t_replay (t_log s) (t_data_of t_init) = Some (t_data_of s)"

lemma t_exec_replay:
  assumes inv: "t_inv s" and own: "t_own_ok (t_chopsticks s) (t_pcs s)"
    and ok: "t_replay_ok s"
    and i: "i < NUM_PHILOSOPHERS" and ex: "t_exec (t_pcs s ! i) i s = Some s'"
  shows "t_replay_ok s'"
proof -
  have lr: "t_left i < NUM_PHILOSOPHERS" "t_right i < NUM_PHILOSOPHERS"
    using i by (simp_all add: t_left_less t_right_less)
  have held: "\<And>c. c < NUM_PHILOSOPHERS \<Longrightarrow> c \<in> set (t_holding (t_pcs s ! i) i) \<Longrightarrow>
                t_chopsticks s ! c"
    using t_own_locked [OF own i] by blast
  show ?thesis
  proof (cases "t_pcs s ! i")
    case T_UnlockRight
    then have "t_chopsticks s ! t_right i" using held [OF lr(2)] by simp
    then show ?thesis using ok ex T_UnlockRight
      by (auto simp: t_replay_ok_def t_replay_snoc t_data_of_def t_goto_def t_emit_def)
  next
    case T_UnlockLeft
    then have "t_chopsticks s ! t_left i" using held [OF lr(1)] by simp
    then show ?thesis using ok ex T_UnlockLeft
      by (auto simp: t_replay_ok_def t_replay_snoc t_data_of_def t_goto_def t_emit_def)
  next
    case T_Backoff
    then have "t_chopsticks s ! t_left i" using held [OF lr(1)] by simp
    then show ?thesis using ok ex T_Backoff
      by (auto simp: t_replay_ok_def t_replay_snoc t_data_of_def t_goto_def t_emit_def)
  qed (use ok ex in \<open>auto simp: t_replay_ok_def t_replay_snoc t_data_of_def t_goto_def t_emit_def
                         split: if_splits\<close>)
qed

lemma t_expire_replay:
  assumes "t_replay_ok s" "t_expire (t_pcs s ! i) i s = Some s'"
  shows "t_replay_ok s'"
  using assms
  by (cases "t_pcs s ! i")
     (auto simp: t_replay_ok_def t_replay_snoc t_data_of_def t_goto_def t_emit_def)

lemma t_step_replay:
  assumes "t_inv s" "t_own_ok (t_chopsticks s) (t_pcs s)" "t_replay_ok s" "t_step s e = Some s'"
  shows "t_replay_ok s'"
proof (cases e)
  case (Run k)
  then have "k < NUM_PHILOSOPHERS" "t_exec (t_pcs s ! k) k s = Some s'"
    using assms(4) by (auto split: if_splits)
  with assms(1,2,3) show ?thesis by (rule t_exec_replay)
next
  case (Expire k)
  then have "t_expire (t_pcs s ! k) k s = Some s'"
    using assms(4) by (auto split: if_splits)
  with assms(3) show ?thesis by (rule t_expire_replay)
qed

lemma t_run_replay:
  "t_inv s \<Longrightarrow> t_own_ok (t_chopsticks s) (t_pcs s) \<Longrightarrow> t_replay_ok s \<Longrightarrow>
     t_replay_ok (t_run s es)"
proof (induction es arbitrary: s)
  case Nil
  then show ?case by simp
next
  case (Cons e es)
  show ?case
  proof (cases "t_step s e")
    case None
    then show ?thesis using Cons by simp
  next
    case (Some s')
    have "t_inv s'" using Cons.prems(1) Some by (rule t_step_inv)
    moreover have "t_own_ok (t_chopsticks s') (t_pcs s')"
      using Cons.prems(1,2) Some by (rule t_step_own)
    moreover have "t_replay_ok s'"
      using Cons.prems Some by (rule t_step_replay)
    ultimately show ?thesis using Cons.IH [of s'] Some by simp
  qed
qed

lemma t_reach_replay:
  "t_replay (t_log (t_run t_init es)) (t_data_of t_init) = Some (t_data_of (t_run t_init es))"
proof -
  have "t_log t_init = []" by (simp add: t_init_def)
  then have "t_replay_ok t_init" by (simp add: t_replay_ok_def)
  then have "t_replay_ok (t_run t_init es)"
    using t_inv_init t_own_init by (intro t_run_replay)
  then show ?thesis by (simp add: t_replay_ok_def)
qed

text \<open>
  The mutex array against the log: a mutex is locked exactly when the log of some thread
  says the thread holds it, and no two threads hold the same mutex.
\<close>

lemma t_reach_held:
  assumes "i < NUM_PHILOSOPHERS"
  shows "t_held [] (t_proj i (t_log (t_run t_init es))) = t_holding (t_pcs (t_run t_init es) ! i) i"
proof -
  have "t_ord_ok (t_run t_init es) i"
    using t_inv_init t_ord_init [OF assms] assms by (rule t_run_ord)
  then show ?thesis by (simp add: t_ord_ok_def)
qed

lemma t_locked_iff_held:
  assumes "c < NUM_PHILOSOPHERS"
  shows "t_chopsticks (t_run t_init es) ! c
           = (\<exists>k < NUM_PHILOSOPHERS. c \<in> set (t_held [] (t_proj k (t_log (t_run t_init es)))))"
  using t_reach_own [of es] assms by (simp add: t_own_ok_def t_reach_held cong: conj_cong)

lemma t_held_disjoint:
  assumes "i < NUM_PHILOSOPHERS" "k < NUM_PHILOSOPHERS" "k \<noteq> i"
  shows "set (t_held [] (t_proj i (t_log (t_run t_init es))))
           \<inter> set (t_held [] (t_proj k (t_log (t_run t_init es)))) = {}"
proof -
  have "\<forall>c. c \<in> set (t_holding (t_pcs (t_run t_init es) ! i) i) \<and>
            c \<in> set (t_holding (t_pcs (t_run t_init es) ! k) k) \<longrightarrow> i = k"
    using t_reach_own [of es] assms(1,2) unfolding t_own_ok_def by blast
  then show ?thesis using assms by (auto simp: t_reach_held)
qed

text \<open>What the two locking steps do to the mutex array.\<close>

lemma t_try_first_step:
  assumes "i < NUM_PHILOSOPHERS" "length (t_pcs s) = NUM_PHILOSOPHERS" "t_pcs s ! i = T_TryFirst"
  shows "t_step s (Run i)
           = (if t_chopsticks s ! t_left i then None
              else Some (t_goto i T_TrySecond (t_emit (T_Lock i (t_left i))
                     (s\<lparr>t_chopsticks := (t_chopsticks s)[t_left i := True]\<rparr>))))"
  using assms by simp

lemma t_try_second_step:
  assumes "i < NUM_PHILOSOPHERS" "length (t_pcs s) = NUM_PHILOSOPHERS" "t_pcs s ! i = T_TrySecond"
  shows "t_step s (Run i)
           = (if t_chopsticks s ! t_right i then None
              else Some (t_goto i T_Count (t_emit (T_Lock i (t_right i))
                     (s\<lparr>t_chopsticks := (t_chopsticks s)[t_right i := True]\<rparr>))))"
  using assms by simp

text \<open>
  C4. In the Timeout strategy, for every philosopher \<open>i\<close> below 5: the pair computed at
  lines 229 to 233 is (min, max) of \<open>i\<close> and \<open>(i + 1) mod 5\<close>, the first strictly below the
  second. In every state of every run: the thread's log passes the check above (its first
  acquisition is the lower index, its second the higher, and it eats holding exactly the
  two, taken in ascending order); the log is a true record of the mutexes (replaying it
  gives the mutex array and the counters of the state, a mutex is locked exactly when
  some thread's log says the thread holds it, and no other thread holds what this one
  holds); the first \<^verbatim>\<open>try_lock_for\<close> of the thread locks the mutex of the lower index and
  nothing else, and waits while that mutex is locked; the second is made with the lower
  mutex locked and locks the mutex of the higher index.
\<close>

theorem t_lower_index_first:
  assumes "i < NUM_PHILOSOPHERS"
  shows "t_order i = (min i ((i + 1) mod NUM_PHILOSOPHERS), max i ((i + 1) mod NUM_PHILOSOPHERS)) \<and>
         fst (t_order i) < snd (t_order i) \<and>
         t_ascending i [] (t_proj i (t_log (t_run t_init es))) \<and>
         t_replay (t_log (t_run t_init es)) (t_data_of t_init)
           = Some (t_data_of (t_run t_init es)) \<and>
         (\<forall>c < NUM_PHILOSOPHERS. t_chopsticks (t_run t_init es) ! c
            = (\<exists>k < NUM_PHILOSOPHERS. c \<in> set (t_held [] (t_proj k (t_log (t_run t_init es)))))) \<and>
         (\<forall>k < NUM_PHILOSOPHERS. k \<noteq> i \<longrightarrow>
            set (t_held [] (t_proj i (t_log (t_run t_init es))))
              \<inter> set (t_held [] (t_proj k (t_log (t_run t_init es)))) = {}) \<and>
         (t_pcs (t_run t_init es) ! i = T_TryFirst \<longrightarrow>
            t_step (t_run t_init es) (Run i)
              = (if t_chopsticks (t_run t_init es) ! min i ((i + 1) mod NUM_PHILOSOPHERS) then None
                 else Some (t_goto i T_TrySecond
                        (t_emit (T_Lock i (min i ((i + 1) mod NUM_PHILOSOPHERS)))
                          ((t_run t_init es)\<lparr>t_chopsticks := (t_chopsticks (t_run t_init es))
                              [min i ((i + 1) mod NUM_PHILOSOPHERS) := True]\<rparr>))))) \<and>
         (t_pcs (t_run t_init es) ! i = T_TrySecond \<longrightarrow>
            t_chopsticks (t_run t_init es) ! min i ((i + 1) mod NUM_PHILOSOPHERS) \<and>
            t_step (t_run t_init es) (Run i)
              = (if t_chopsticks (t_run t_init es) ! max i ((i + 1) mod NUM_PHILOSOPHERS) then None
                 else Some (t_goto i T_Count
                        (t_emit (T_Lock i (max i ((i + 1) mod NUM_PHILOSOPHERS)))
                          ((t_run t_init es)\<lparr>t_chopsticks := (t_chopsticks (t_run t_init es))
                              [max i ((i + 1) mod NUM_PHILOSOPHERS) := True]\<rparr>)))))"
proof -
  let ?s = "t_run t_init es"
  let ?lo = "min i ((i + 1) mod NUM_PHILOSOPHERS)"
  let ?hi = "max i ((i + 1) mod NUM_PHILOSOPHERS)"
  have lo: "t_left i = ?lo" and hi: "t_right i = ?hi"
    by (simp_all only: t_left_min t_right_max)
  have len: "length (t_pcs ?s) = NUM_PHILOSOPHERS"
    using t_reach_inv [of es] by (simp add: t_inv_def)
  have "t_order i = (t_left i, t_right i)"
    by (simp add: t_left_def t_right_def)
  then have a: "t_order i = (?lo, ?hi)"
    by (simp only: lo hi)
  have b: "fst (t_order i) < snd (t_order i)"
    using t_left_less_right [OF assms] by (simp add: t_left_def t_right_def)
  have "t_ord_ok ?s i"
    using t_inv_init t_ord_init [OF assms] assms by (rule t_run_ord)
  then have c: "t_ascending i [] (t_proj i (t_log ?s))"
    by (simp add: t_ord_ok_def)
  have d: "t_replay (t_log ?s) (t_data_of t_init) = Some (t_data_of ?s)"
    by (rule t_reach_replay)
  have e: "\<forall>c < NUM_PHILOSOPHERS. t_chopsticks ?s ! c
            = (\<exists>k < NUM_PHILOSOPHERS. c \<in> set (t_held [] (t_proj k (t_log ?s))))"
    using t_locked_iff_held by blast
  have f: "\<forall>k < NUM_PHILOSOPHERS. k \<noteq> i \<longrightarrow>
            set (t_held [] (t_proj i (t_log ?s))) \<inter> set (t_held [] (t_proj k (t_log ?s))) = {}"
    using t_held_disjoint [OF assms] by blast
  have g: "t_pcs ?s ! i = T_TryFirst \<longrightarrow>
            t_step ?s (Run i)
              = (if t_chopsticks ?s ! ?lo then None
                 else Some (t_goto i T_TrySecond (t_emit (T_Lock i ?lo)
                        (?s\<lparr>t_chopsticks := (t_chopsticks ?s)[?lo := True]\<rparr>))))"
    using t_try_first_step [OF assms len] unfolding lo by blast
  have "t_pcs ?s ! i = T_TrySecond \<longrightarrow> t_chopsticks ?s ! t_left i"
  proof
    assume "t_pcs ?s ! i = T_TrySecond"
    then have "t_left i \<in> set (t_holding (t_pcs ?s ! i) i)" by simp
    then show "t_chopsticks ?s ! t_left i"
      using t_own_locked [OF t_reach_own assms t_left_less [OF assms]] by blast
  qed
  then have h: "t_pcs ?s ! i = T_TrySecond \<longrightarrow>
            t_chopsticks ?s ! ?lo \<and>
            t_step ?s (Run i)
              = (if t_chopsticks ?s ! ?hi then None
                 else Some (t_goto i T_Count (t_emit (T_Lock i ?hi)
                        (?s\<lparr>t_chopsticks := (t_chopsticks ?s)[?hi := True]\<rparr>))))"
    using t_try_second_step [OF assms len] unfolding lo hi by blast
  show ?thesis using a b c d e f g h by blast
qed

theorem t_lower_index_first_witness:
  "(4::nat) < NUM_PHILOSOPHERS \<and> t_order 4 = (0, 4) \<and>
   t_pcs (t_run t_init [Run 4, Run 0, Run 4]) ! 4 = T_TryFirst \<and>
   t_chopsticks (t_run t_init [Run 4, Run 0, Run 4]) = [False, False, False, False, False] \<and>
   t_chopsticks (t_run t_init [Run 4, Run 0, Run 4, Run 4]) = [True, False, False, False, False] \<and>
   t_chopsticks (t_run t_init [Run 4, Run 0, Run 4, Run 4, Run 4])
     = [True, False, False, False, True] \<and>
   t_proj 4 (t_log (t_run t_init [Run 4, Run 0, Run 4, Run 4, Run 4, Run 4, Run 4, Run 4, Run 4]))
     = [T_Begin 4, T_Lock 4 0, T_Lock 4 4, T_Success 4, T_Consume 4, T_Unlock 4 4, T_Unlock 4 0] \<and>
   t_ascending 4 [] [T_Begin 4, T_Lock 4 0, T_Lock 4 4, T_Success 4, T_Consume 4,
                     T_Unlock 4 4, T_Unlock 4 0]"
proof -
  have h: "(4::nat) < NUM_PHILOSOPHERS" by (simp add: NUM_PHILOSOPHERS_def)
  have o: "t_order 4 = (0, 4)" by (simp add: t_order_def NUM_PHILOSOPHERS_def)
  have p: "t_pcs (t_run t_init [Run 4, Run 0, Run 4]) ! 4 = T_TryFirst"
    by (simp add: t_eval)
  have c: "t_chopsticks (t_run t_init [Run 4, Run 0, Run 4]) = [False, False, False, False, False]"
    "t_chopsticks (t_run t_init [Run 4, Run 0, Run 4, Run 4]) = [True, False, False, False, False]"
    "t_chopsticks (t_run t_init [Run 4, Run 0, Run 4, Run 4, Run 4])
       = [True, False, False, False, True]"
    by code_simp+
  have l: "t_proj 4 (t_log (t_run t_init
             [Run 4, Run 0, Run 4, Run 4, Run 4, Run 4, Run 4, Run 4, Run 4]))
     = [T_Begin 4, T_Lock 4 0, T_Lock 4 4, T_Success 4, T_Consume 4, T_Unlock 4 4, T_Unlock 4 0]"
    by (simp add: t_eval t_proj_def)
  have "t_ascending 4 [] (t_proj 4 (t_log (t_run t_init
             [Run 4, Run 0, Run 4, Run 4, Run 4, Run 4, Run 4, Run 4, Run 4])))"
    using t_lower_index_first [OF h, of
        "[Run 4, Run 0, Run 4, Run 4, Run 4, Run 4, Run 4, Run 4, Run 4]"]
    by blast
  then have a: "t_ascending 4 [] [T_Begin 4, T_Lock 4 0, T_Lock 4 4, T_Success 4, T_Consume 4,
                     T_Unlock 4 4, T_Unlock 4 0]"
    by (simp only: l)
  show ?thesis using h o p c l a by (simp only: simp_thms)
qed

subsection \<open>The order of the steps of a meal\<close>

text \<open>
  The events that may follow one another in the log of thread \<open>pid\<close>: the control flow of
  the loop body, lines 222 to 272.
\<close>

fun t_follows :: "nat \<Rightarrow> t_event \<Rightarrow> t_event \<Rightarrow> bool" where
  "t_follows pid (T_Begin i) b = (b = T_Lock pid (t_left pid) \<or> b = T_TimedOut pid)"
| "t_follows pid (T_Lock i c) b =
     (if c = t_left pid then b = T_Lock pid (t_right pid) \<or> b = T_TimedOut pid
      else b = T_Success pid)"
| "t_follows pid (T_Success i) b = (b = T_Consume pid)"
| "t_follows pid (T_Consume i) b = (b = T_Unlock pid (t_right pid))"
| "t_follows pid (T_Unlock i c) b =
     (if c = t_right pid then b = T_Unlock pid (t_left pid) else b = T_Begin pid)"
| "t_follows pid (T_TimedOut i) b = (b = T_Unlock pid (t_left pid) \<or> b = T_Begin pid)"

fun t_is_success :: "t_event \<Rightarrow> bool" where
  "t_is_success (T_Success i) = True"
| "t_is_success e = False"

text \<open>The last event of a thread's log, by program counter.\<close>

fun t_last_ok :: "t_pc \<Rightarrow> nat \<Rightarrow> t_event list \<Rightarrow> bool" where
  "t_last_ok T_LoopHead i evs =
     (evs = [] \<or> last evs = T_Unlock i (t_left i) \<or> last evs = T_TimedOut i)"
| "t_last_ok T_Think i evs = (evs \<noteq> [] \<and> last evs = T_Begin i)"
| "t_last_ok T_TryFirst i evs = (evs \<noteq> [] \<and> last evs = T_Begin i)"
| "t_last_ok T_TrySecond i evs = (evs \<noteq> [] \<and> last evs = T_Lock i (t_left i))"
| "t_last_ok T_Count i evs = (evs \<noteq> [] \<and> last evs = T_Lock i (t_right i))"
| "t_last_ok T_Eat i evs = (evs \<noteq> [] \<and> last evs = T_Success i)"
| "t_last_ok T_UnlockRight i evs = (evs \<noteq> [] \<and> last evs = T_Consume i)"
| "t_last_ok T_UnlockLeft i evs = (evs \<noteq> [] \<and> last evs = T_Unlock i (t_right i))"
| "t_last_ok T_Backoff i evs = (evs \<noteq> [] \<and> last evs = T_TimedOut i)"
| "t_last_ok T_Done i evs = True"

definition t_seq_ok :: "t_state \<Rightarrow> nat \<Rightarrow> bool" where
  "t_seq_ok s i \<longleftrightarrow>
     successively (t_follows i) (t_proj i (t_log s)) \<and>
     t_last_ok (t_pcs s ! i) i (t_proj i (t_log s))"

definition t_tally_ok :: "t_state \<Rightarrow> bool" where
  "t_tally_ok s \<longleftrightarrow> successful_meals s = length (filter t_is_success (t_log s))"

lemma successively_snoc:
  "successively P (xs @ [x]) \<longleftrightarrow> successively P xs \<and> (xs = [] \<or> P (last xs) x)"
  by (simp add: successively_append_iff)

lemma t_exec_seq_self:
  assumes "t_inv s" "t_seq_ok s i" "i < NUM_PHILOSOPHERS" "t_exec (t_pcs s ! i) i s = Some s'"
  shows "t_seq_ok s' i"
proof -
  have ne: "t_left i \<noteq> t_right i" using t_left_less_right [OF assms(3)] by simp
  have len: "i < length (t_pcs s)" using assms(1,3) by (simp add: t_inv_def)
  show ?thesis
    using assms(2,4) ne len
    by (cases "t_pcs s ! i")
       (auto simp: t_seq_ok_def t_goto_def t_emit_def t_proj_snoc successively_snoc
             split: if_splits)
qed

lemma t_expire_seq_self:
  assumes "t_inv s" "t_seq_ok s i" "i < NUM_PHILOSOPHERS" "t_expire (t_pcs s ! i) i s = Some s'"
  shows "t_seq_ok s' i"
proof -
  have len: "i < length (t_pcs s)" using assms(1,3) by (simp add: t_inv_def)
  show ?thesis
    using assms(2,4) len
    by (cases "t_pcs s ! i")
       (auto simp: t_seq_ok_def t_goto_def t_emit_def t_proj_snoc successively_snoc
             split: if_splits)
qed

lemma t_step_seq:
  assumes "t_inv s" "t_seq_ok s j" "j < NUM_PHILOSOPHERS" "t_step s e = Some s'"
  shows "t_seq_ok s' j"
proof (cases e)
  case (Run k)
  then have k: "k < NUM_PHILOSOPHERS" "t_exec (t_pcs s ! k) k s = Some s'"
    using assms(4) by (auto split: if_splits)
  show ?thesis
  proof (cases "j = k")
    case True
    then show ?thesis using t_exec_seq_self [OF assms(1) _ k] assms(2) by simp
  next
    case False
    then show ?thesis using t_exec_frame [OF k(2), of j] assms(2) by (simp add: t_seq_ok_def)
  qed
next
  case (Expire k)
  then have k: "k < NUM_PHILOSOPHERS" "t_expire (t_pcs s ! k) k s = Some s'"
    using assms(4) by (auto split: if_splits)
  show ?thesis
  proof (cases "j = k")
    case True
    then show ?thesis using t_expire_seq_self [OF assms(1) _ k] assms(2) by simp
  next
    case False
    then show ?thesis using t_expire_frame [OF k(2), of j] assms(2) by (simp add: t_seq_ok_def)
  qed
qed

lemma t_run_seq:
  "t_inv s \<Longrightarrow> t_seq_ok s j \<Longrightarrow> j < NUM_PHILOSOPHERS \<Longrightarrow> t_seq_ok (t_run s es) j"
proof (induction es arbitrary: s)
  case Nil
  then show ?case by simp
next
  case (Cons e es)
  show ?case
  proof (cases "t_step s e")
    case None
    then show ?thesis using Cons by simp
  next
    case (Some s')
    then show ?thesis
      using Cons.IH [of s'] Cons.prems t_step_inv [of s e s'] t_step_seq [of s j e s']
      by simp
  qed
qed

lemma t_seq_init: "j < NUM_PHILOSOPHERS \<Longrightarrow> t_seq_ok t_init j"
  by (simp add: t_seq_ok_def t_init_def t_proj_def)

lemma t_step_tally: "t_tally_ok s \<Longrightarrow> t_step s e = Some s' \<Longrightarrow> t_tally_ok s'"
proof (cases e)
  case (Run k)
  assume "t_tally_ok s" "t_step s e = Some s'"
  then show ?thesis
    using Run
    by (cases "t_pcs s ! k")
       (auto simp: t_tally_ok_def t_goto_def t_emit_def split: if_splits)
next
  case (Expire k)
  assume "t_tally_ok s" "t_step s e = Some s'"
  then show ?thesis
    using Expire
    by (cases "t_pcs s ! k")
       (auto simp: t_tally_ok_def t_goto_def t_emit_def split: if_splits)
qed

lemma t_run_tally: "t_tally_ok s \<Longrightarrow> t_tally_ok (t_run s es)"
  by (induction es arbitrary: s) (auto split: option.splits dest: t_step_tally)

lemma t_tally_init: "t_tally_ok t_init"
  by (simp add: t_tally_ok_def t_init_def)

text \<open>
  C8, as the code has it. In every state of every run of the Timeout strategy and for
  every philosopher, the events of the thread follow the control flow above: after the
  second chopstick is locked the thread first increments \<^verbatim>\<open>meals_eaten\<close> and the success
  counter, then consumes, then releases the second chopstick, then the first. The events
  are what happened to the data: the success counter is the number of these increments in
  the log, the thread's \<^verbatim>\<open>meals_eaten\<close> is the number of its own, and replaying the
  log gives the mutex array and the counters of the state, so the releases in the log are
  the releases of the mutexes, in this order.
\<close>

theorem t_success_then_consume_then_release:
  assumes "i < NUM_PHILOSOPHERS"
  shows "successively (t_follows i) (t_proj i (t_log (t_run t_init es))) \<and>
         successful_meals (t_run t_init es) = length (filter t_is_success (t_log (t_run t_init es))) \<and>
         meals_eaten (t_run t_init es) ! i = count_list (t_log (t_run t_init es)) (T_Success i) \<and>
         t_replay (t_log (t_run t_init es)) (t_data_of t_init)
           = Some (t_data_of (t_run t_init es)) \<and>
         (t_pcs (t_run t_init es) ! i = T_Eat \<longrightarrow>
            0 < meals_eaten (t_run t_init es) ! i \<and> 0 < successful_meals (t_run t_init es) \<and>
            t_chopsticks (t_run t_init es) ! t_left i \<and> t_chopsticks (t_run t_init es) ! t_right i)"
proof -
  let ?s = "t_run t_init es"
  have "t_seq_ok ?s i"
    using t_inv_init t_seq_init [OF assms] assms by (rule t_run_seq)
  then have a: "successively (t_follows i) (t_proj i (t_log ?s))"
    by (simp add: t_seq_ok_def)
  have "t_tally_ok ?s"
    using t_tally_init by (rule t_run_tally)
  then have b: "successful_meals ?s = length (filter t_is_success (t_log ?s))"
    by (simp add: t_tally_ok_def)
  have c: "meals_eaten ?s ! i = count_list (t_log ?s) (T_Success i)"
    using t_reach_cnt_inv [of es] assms by (simp add: t_cnt_inv_def)
  have d: "t_replay (t_log ?s) (t_data_of t_init) = Some (t_data_of ?s)"
    by (rule t_reach_replay)
  have e: "t_pcs ?s ! i = T_Eat \<longrightarrow>
            0 < meals_eaten ?s ! i \<and> 0 < successful_meals ?s \<and>
            t_chopsticks ?s ! t_left i \<and> t_chopsticks ?s ! t_right i"
  proof
    assume p: "t_pcs ?s ! i = T_Eat"
    have "t_proj i (t_log ?s) \<noteq> [] \<and> last (t_proj i (t_log ?s)) = T_Success i"
      using \<open>t_seq_ok ?s i\<close> p by (simp add: t_seq_ok_def)
    then have "T_Success i \<in> set (t_proj i (t_log ?s))"
      using last_in_set by metis
    then have in_log: "T_Success i \<in> set (t_log ?s)"
      by (simp add: t_proj_def)
    then have "0 < count_list (t_log ?s) (T_Success i)"
      using count_list_0_iff [of "t_log ?s" "T_Success i"] by simp
    then have m: "0 < meals_eaten ?s ! i" using c by simp
    have "t_is_success (T_Success i)" by simp
    then have "\<exists>x \<in> set (t_log ?s). t_is_success x"
      using in_log by blast
    then have "filter t_is_success (t_log ?s) \<noteq> []"
      by (simp add: filter_empty_conv)
    then have n: "0 < successful_meals ?s" using b by simp
    have "t_left i \<in> set (t_holding (t_pcs ?s ! i) i)" "t_right i \<in> set (t_holding (t_pcs ?s ! i) i)"
      using p by simp_all
    then have "t_chopsticks ?s ! t_left i" "t_chopsticks ?s ! t_right i"
      using t_own_locked [OF t_reach_own assms t_left_less [OF assms]]
            t_own_locked [OF t_reach_own assms t_right_less [OF assms]]
      by blast+
    then show "0 < meals_eaten ?s ! i \<and> 0 < successful_meals ?s \<and>
            t_chopsticks ?s ! t_left i \<and> t_chopsticks ?s ! t_right i"
      using m n by simp
  qed
  show ?thesis using a b c d e by blast
qed

theorem t_success_then_consume_then_release_witness:
  "(0::nat) < NUM_PHILOSOPHERS \<and>
   t_proj 0 (t_log (t_run t_init [Run 0, Run 0, Run 0, Run 1, Run 0, Run 0, Run 0, Run 0, Run 0]))
     = [T_Begin 0, T_Lock 0 0, T_Lock 0 1, T_Success 0, T_Consume 0, T_Unlock 0 1, T_Unlock 0 0] \<and>
   successively (t_follows 0)
     [T_Begin 0, T_Lock 0 0, T_Lock 0 1, T_Success 0, T_Consume 0, T_Unlock 0 1, T_Unlock 0 0] \<and>
   successful_meals (t_run t_init [Run 0, Run 0, Run 0, Run 1, Run 0, Run 0, Run 0, Run 0, Run 0])
     = 1 \<and>
   t_pcs (t_run t_init [Run 0, Run 0, Run 0, Run 1, Run 0, Run 0]) ! 0 = T_Eat \<and>
   0 < meals_eaten (t_run t_init [Run 0, Run 0, Run 0, Run 1, Run 0, Run 0]) ! 0 \<and>
   t_chopsticks (t_run t_init [Run 0, Run 0, Run 0, Run 1, Run 0, Run 0]) ! t_right 0"
proof -
  have h: "(0::nat) < NUM_PHILOSOPHERS" by (simp add: NUM_PHILOSOPHERS_def)
  have l: "t_proj 0 (t_log (t_run t_init
             [Run 0, Run 0, Run 0, Run 1, Run 0, Run 0, Run 0, Run 0, Run 0]))
     = [T_Begin 0, T_Lock 0 0, T_Lock 0 1, T_Success 0, T_Consume 0, T_Unlock 0 1, T_Unlock 0 0]"
    by (simp add: t_eval t_proj_def)
  have m: "successful_meals (t_run t_init
             [Run 0, Run 0, Run 0, Run 1, Run 0, Run 0, Run 0, Run 0, Run 0]) = 1"
    by (simp add: t_eval)
  have p: "t_pcs (t_run t_init [Run 0, Run 0, Run 0, Run 1, Run 0, Run 0]) ! 0 = T_Eat"
    by (simp add: t_eval)
  have "successively (t_follows 0) (t_proj 0 (t_log (t_run t_init
             [Run 0, Run 0, Run 0, Run 1, Run 0, Run 0, Run 0, Run 0, Run 0])))"
    using t_success_then_consume_then_release [OF h, of
        "[Run 0, Run 0, Run 0, Run 1, Run 0, Run 0, Run 0, Run 0, Run 0]"]
    by (rule conjunct1)
  then have c: "successively (t_follows 0)
     [T_Begin 0, T_Lock 0 0, T_Lock 0 1, T_Success 0, T_Consume 0, T_Unlock 0 1, T_Unlock 0 0]"
    by (simp only: l)
  have e: "0 < meals_eaten (t_run t_init [Run 0, Run 0, Run 0, Run 1, Run 0, Run 0]) ! 0 \<and>
     t_chopsticks (t_run t_init [Run 0, Run 0, Run 0, Run 1, Run 0, Run 0]) ! t_right 0"
    using t_success_then_consume_then_release [OF h, of
        "[Run 0, Run 0, Run 0, Run 1, Run 0, Run 0]"] p
    by blast
  show ?thesis
    using h l m c p e by (simp only: simp_thms)
qed

text \<open>
  C8, as stated, puts the increment of the success counter after the consumption and the
  releases. In the run where philosopher 0 takes five steps it has both chopsticks, has
  already incremented the success counter (line 247) and has neither consumed (line 249)
  nor released anything (lines 252 and 253); three steps later its log shows the order.
\<close>

theorem t_increment_last_counterexample:
  "successful_meals (t_run t_init [Run 0, Run 0, Run 0, Run 0, Run 0]) = 1 \<and>
   t_pcs (t_run t_init [Run 0, Run 0, Run 0, Run 0, Run 0]) ! 0 = T_Eat \<and>
   t_chopsticks (t_run t_init [Run 0, Run 0, Run 0, Run 0, Run 0]) ! 0 \<and>
   t_chopsticks (t_run t_init [Run 0, Run 0, Run 0, Run 0, Run 0]) ! 1 \<and>
   t_log (t_run t_init [Run 0, Run 0, Run 0, Run 0, Run 0])
     = [T_Begin 0, T_Lock 0 0, T_Lock 0 1, T_Success 0] \<and>
   t_log (t_run t_init [Run 0, Run 0, Run 0, Run 0, Run 0, Run 0, Run 0, Run 0])
     = [T_Begin 0, T_Lock 0 0, T_Lock 0 1, T_Success 0, T_Consume 0, T_Unlock 0 1, T_Unlock 0 0]"
  by (simp add: t_eval)

section \<open>Solution 2: the waiter (class DiningPhilosophersWaiter)\<close>

subsection \<open>The ledger operations\<close>

text \<open>
  \<^verbatim>\<open>chopstick_available\<close> is the ledger. \<^verbatim>\<open>can_eat\<close> is lines 110 to 114. The bodies
  of \<^verbatim>\<open>request_chopsticks\<close> (lines 117 to 131) and \<^verbatim>\<open>return_chopsticks\<close> (lines 134
  to 147) run with \<^verbatim>\<open>waiter_mutex\<close> held; as functions of the ledger, the request
  returns the ledger with both entries false once \<^verbatim>\<open>can_eat\<close> holds and does not
  return (\<open>None\<close>) while it does not, and the return sets both entries true.
\<close>

definition can_eat :: "bool list \<Rightarrow> nat \<Rightarrow> bool" where
  "can_eat avail philosopher_id =
     (let left = philosopher_id; right = (philosopher_id + 1) mod NUM_PHILOSOPHERS
      in avail ! left \<and> avail ! right)"

definition request_chopsticks :: "bool list \<Rightarrow> nat \<Rightarrow> bool list option" where
  "request_chopsticks avail philosopher_id =
     (if can_eat avail philosopher_id
      then (let left = philosopher_id; right = (philosopher_id + 1) mod NUM_PHILOSOPHERS
            in Some (avail[left := False, right := False]))
      else None)"

definition return_chopsticks :: "bool list \<Rightarrow> nat \<Rightarrow> bool list" where
  "return_chopsticks avail philosopher_id =
     (let left = philosopher_id; right = (philosopher_id + 1) mod NUM_PHILOSOPHERS
      in avail[left := True, right := True])"

subsection \<open>The threads\<close>

text \<open>
  The program counter names the next statement of \<^verbatim>\<open>philosopher\<close> (lines 149 to 172)
  with the two calls inlined: the loop head, the thinking delay, the acquisition of
  \<^verbatim>\<open>waiter_mutex\<close> (the constructor of line 118, and again inside \<^verbatim>\<open>wait\<close> after a
  wake-up), the evaluation of the predicate of line 121, the blocked state inside
  \<^verbatim>\<open>wait\<close> (the mutex is released), the writes of lines 126 and 127, the release of
  the mutex at line 131, the eating delay, the acquisition of line 135, the writes of
  lines 139 and 140, \<^verbatim>\<open>notify_all\<close> of line 146, the release at line 147 followed by
  \<^verbatim>\<open>++meal\<close>, and the end of the function.
\<close>

datatype w_pc =
  W_LoopHead | W_Think | W_ReqLock | W_ReqCheck | W_Waiting | W_ReserveLeft | W_ReserveRight
  | W_ReqUnlock | W_Eat | W_RetLock | W_RetLeft | W_RetRight | W_Notify | W_RetUnlock | W_Done

record w_state =
  chopstick_available :: "bool list"
  waiter_mutex :: "nat option"
  w_pcs :: "w_pc list"
  w_meal :: "nat list"

definition w_right :: "nat \<Rightarrow> nat" where
  "w_right i = (i + 1) mod NUM_PHILOSOPHERS"

definition w_goto :: "nat \<Rightarrow> w_pc \<Rightarrow> w_state \<Rightarrow> w_state" where
  "w_goto i p s = s\<lparr>w_pcs := (w_pcs s)[i := p]\<rparr>"

definition w_wake_all :: "w_pc list \<Rightarrow> w_pc list" where
  "w_wake_all ps = map (\<lambda>p. if p = W_Waiting then W_ReqLock else p) ps"

text \<open>
  One step of thread \<open>i\<close>. \<open>waiter_mutex\<close> holds the thread that owns the mutex. A thread
  blocked in \<^verbatim>\<open>wait\<close> moves only when it is woken.
\<close>

fun w_exec :: "w_pc \<Rightarrow> nat \<Rightarrow> w_state \<Rightarrow> w_state option" where
  "w_exec W_LoopHead i s =
     (if w_meal s ! i < 3 then Some (w_goto i W_Think s) else Some (w_goto i W_Done s))"
| "w_exec W_Think i s = Some (w_goto i W_ReqLock s)"
| "w_exec W_ReqLock i s =
     (if waiter_mutex s = None then Some (w_goto i W_ReqCheck (s\<lparr>waiter_mutex := Some i\<rparr>))
      else None)"
| "w_exec W_ReqCheck i s =
     (if can_eat (chopstick_available s) i then Some (w_goto i W_ReserveLeft s)
      else Some (w_goto i W_Waiting (s\<lparr>waiter_mutex := None\<rparr>)))"
| "w_exec W_Waiting i s = None"
| "w_exec W_ReserveLeft i s =
     Some (w_goto i W_ReserveRight
            (s\<lparr>chopstick_available := (chopstick_available s)[i := False]\<rparr>))"
| "w_exec W_ReserveRight i s =
     Some (w_goto i W_ReqUnlock
            (s\<lparr>chopstick_available := (chopstick_available s)[w_right i := False]\<rparr>))"
| "w_exec W_ReqUnlock i s = Some (w_goto i W_Eat (s\<lparr>waiter_mutex := None\<rparr>))"
| "w_exec W_Eat i s = Some (w_goto i W_RetLock s)"
| "w_exec W_RetLock i s =
     (if waiter_mutex s = None then Some (w_goto i W_RetLeft (s\<lparr>waiter_mutex := Some i\<rparr>))
      else None)"
| "w_exec W_RetLeft i s =
     Some (w_goto i W_RetRight
            (s\<lparr>chopstick_available := (chopstick_available s)[i := True]\<rparr>))"
| "w_exec W_RetRight i s =
     Some (w_goto i W_Notify
            (s\<lparr>chopstick_available := (chopstick_available s)[w_right i := True]\<rparr>))"
| "w_exec W_Notify i s = Some (w_goto i W_RetUnlock (s\<lparr>w_pcs := w_wake_all (w_pcs s)\<rparr>))"
| "w_exec W_RetUnlock i s =
     Some (w_goto i W_LoopHead (s\<lparr>waiter_mutex := None, w_meal := (w_meal s)[i := w_meal s ! i + 1]\<rparr>))"
| "w_exec W_Done i s = None"

text \<open>
  A schedule names the thread that moves, or a thread that wakes up inside \<^verbatim>\<open>wait\<close>
  without a notification, which \<^verbatim>\<open>condition_variable::wait\<close> may do.
\<close>

datatype w_sched = Go nat | Wake nat

fun w_step :: "w_state \<Rightarrow> w_sched \<Rightarrow> w_state option" where
  "w_step s (Go i) = (if i < NUM_PHILOSOPHERS then w_exec (w_pcs s ! i) i s else None)"
| "w_step s (Wake i) =
     (if i < NUM_PHILOSOPHERS \<and> w_pcs s ! i = W_Waiting then Some (w_goto i W_ReqLock s)
      else None)"

fun w_run :: "w_state \<Rightarrow> w_sched list \<Rightarrow> w_state" where
  "w_run s [] = s"
| "w_run s (e # es) = (case w_step s e of None \<Rightarrow> w_run s es | Some s' \<Rightarrow> w_run s' es)"

text \<open>\<^verbatim>\<open>demonstrate\<close> fills the ledger with true (line 181) and starts the five threads.\<close>

definition w_init :: w_state where
  "w_init = \<lparr>chopstick_available = replicate NUM_PHILOSOPHERS True,
             waiter_mutex = None,
             w_pcs = replicate NUM_PHILOSOPHERS W_LoopHead,
             w_meal = replicate NUM_PHILOSOPHERS 0\<rparr>"

text \<open>
  The statements executed with the mutex held, and the ledger entries a thread has
  marked unavailable and not yet marked available again.
\<close>

fun w_in_critical :: "w_pc \<Rightarrow> bool" where
  "w_in_critical W_ReqCheck = True"
| "w_in_critical W_ReserveLeft = True"
| "w_in_critical W_ReserveRight = True"
| "w_in_critical W_ReqUnlock = True"
| "w_in_critical W_RetLeft = True"
| "w_in_critical W_RetRight = True"
| "w_in_critical W_Notify = True"
| "w_in_critical W_RetUnlock = True"
| "w_in_critical p = False"

fun w_owns :: "w_pc \<Rightarrow> nat \<Rightarrow> nat \<Rightarrow> bool" where
  "w_owns W_ReserveRight i c = (c = i)"
| "w_owns W_ReqUnlock i c = (c = i \<or> c = w_right i)"
| "w_owns W_Eat i c = (c = i \<or> c = w_right i)"
| "w_owns W_RetLock i c = (c = i \<or> c = w_right i)"
| "w_owns W_RetLeft i c = (c = i \<or> c = w_right i)"
| "w_owns W_RetRight i c = (c = w_right i)"
| "w_owns p i c = False"

definition w_inv :: "w_state \<Rightarrow> bool" where
  "w_inv s \<longleftrightarrow>
     length (w_pcs s) = NUM_PHILOSOPHERS \<and>
     length (chopstick_available s) = NUM_PHILOSOPHERS \<and>
     (\<forall>i < NUM_PHILOSOPHERS. w_in_critical (w_pcs s ! i) = (waiter_mutex s = Some i)) \<and>
     (\<forall>c < NUM_PHILOSOPHERS.
        chopstick_available s ! c = (\<forall>i < NUM_PHILOSOPHERS. \<not> w_owns (w_pcs s ! i) i c)) \<and>
     (\<forall>i < NUM_PHILOSOPHERS. \<forall>j < NUM_PHILOSOPHERS. \<forall>c.
        w_owns (w_pcs s ! i) i c \<and> w_owns (w_pcs s ! j) j c \<longrightarrow> i = j) \<and>
     (\<forall>i < NUM_PHILOSOPHERS.
        (w_pcs s ! i = W_ReserveLeft \<longrightarrow> can_eat (chopstick_available s) i) \<and>
        (w_pcs s ! i = W_ReserveRight \<longrightarrow> chopstick_available s ! w_right i))"

lemma w_right_less: "i < NUM_PHILOSOPHERS \<Longrightarrow> w_right i < NUM_PHILOSOPHERS"
  by (simp add: w_right_def NUM_PHILOSOPHERS_def)

lemma w_right_neq: "i < NUM_PHILOSOPHERS \<Longrightarrow> w_right i \<noteq> i"
  by (auto simp: w_right_def NUM_PHILOSOPHERS_def mod_Suc)

lemma w_inv_init: "w_inv w_init"
  by (simp add: w_inv_def w_init_def)

subsection \<open>The invariant is kept by every step\<close>

lemma w_inv_quiet:
  assumes "w_inv s"
    and "length ps' = NUM_PHILOSOPHERS"
    and "\<forall>j < NUM_PHILOSOPHERS. \<forall>c. w_owns (ps' ! j) j c = w_owns (w_pcs s ! j) j c"
    and "\<forall>j < NUM_PHILOSOPHERS. w_in_critical (ps' ! j) = (m' = Some j)"
    and "\<forall>j < NUM_PHILOSOPHERS.
           (ps' ! j = W_ReserveLeft \<longrightarrow> can_eat (chopstick_available s) j) \<and>
           (ps' ! j = W_ReserveRight \<longrightarrow> chopstick_available s ! w_right j)"
  shows "w_inv (s\<lparr>w_pcs := ps', waiter_mutex := m'\<rparr>)"
  using assms unfolding w_inv_def by simp

lemma w_inv_reserve:
  assumes inv: "w_inv s" and i: "i < NUM_PHILOSOPHERS" and c0: "c0 < NUM_PHILOSOPHERS"
    and m: "waiter_mutex s = Some i"
    and free: "chopstick_available s ! c0"
    and crit: "w_in_critical p'"
    and own: "\<forall>c. w_owns p' i c = (w_owns (w_pcs s ! i) i c \<or> c = c0)"
    and nl: "p' \<noteq> W_ReserveLeft"
    and nr: "p' = W_ReserveRight \<longrightarrow> w_right i \<noteq> c0 \<and> chopstick_available s ! w_right i"
  shows "w_inv (w_goto i p' (s\<lparr>chopstick_available := (chopstick_available s)[c0 := False]\<rparr>))"
proof -
  let ?ps = "(w_pcs s)[i := p']"
  let ?a = "(chopstick_available s)[c0 := False]"
  have len: "length (w_pcs s) = NUM_PHILOSOPHERS" "length (chopstick_available s) = NUM_PHILOSOPHERS"
    using inv by (simp_all add: w_inv_def)
  have B: "\<forall>j < NUM_PHILOSOPHERS. w_in_critical (w_pcs s ! j) = (waiter_mutex s = Some j)"
    using inv by (simp add: w_inv_def)
  have C: "\<forall>c < NUM_PHILOSOPHERS.
        chopstick_available s ! c = (\<forall>j < NUM_PHILOSOPHERS. \<not> w_owns (w_pcs s ! j) j c)"
    using inv by (simp add: w_inv_def)
  have D: "\<forall>j < NUM_PHILOSOPHERS. \<forall>k < NUM_PHILOSOPHERS. \<forall>c.
        w_owns (w_pcs s ! j) j c \<and> w_owns (w_pcs s ! k) k c \<longrightarrow> j = k"
    using inv by (simp add: w_inv_def)
  have noown: "\<forall>j < NUM_PHILOSOPHERS. \<not> w_owns (w_pcs s ! j) j c0"
    using C c0 free by blast
  have other: "\<forall>j < NUM_PHILOSOPHERS. j \<noteq> i \<longrightarrow> \<not> w_in_critical (w_pcs s ! j)"
    using B m by simp
  have ownj: "\<And>j c. j < NUM_PHILOSOPHERS \<Longrightarrow>
        w_owns (?ps ! j) j c = (w_owns (w_pcs s ! j) j c \<or> (j = i \<and> c = c0))"
    using own len i by (auto simp: nth_list_update)
  have B': "\<forall>j < NUM_PHILOSOPHERS. w_in_critical (?ps ! j) = (waiter_mutex s = Some j)"
    using B m crit len i by (simp add: nth_list_update)
  have C': "\<forall>c < NUM_PHILOSOPHERS.
        ?a ! c = (\<forall>j < NUM_PHILOSOPHERS. \<not> w_owns (?ps ! j) j c)"
  proof (intro allI impI)
    fix c assume c: "c < NUM_PHILOSOPHERS"
    show "?a ! c = (\<forall>j < NUM_PHILOSOPHERS. \<not> w_owns (?ps ! j) j c)"
    proof (cases "c = c0")
      case True
      then show ?thesis using ownj [OF i, of c0] i c len by auto
    next
      case False
      then show ?thesis using C c ownj len by simp
    qed
  qed
  have D': "\<forall>j < NUM_PHILOSOPHERS. \<forall>k < NUM_PHILOSOPHERS. \<forall>c.
        w_owns (?ps ! j) j c \<and> w_owns (?ps ! k) k c \<longrightarrow> j = k"
  proof (intro allI impI)
    fix j k c
    assume j: "j < NUM_PHILOSOPHERS" and k: "k < NUM_PHILOSOPHERS"
      and o: "w_owns (?ps ! j) j c \<and> w_owns (?ps ! k) k c"
    show "j = k"
    proof (cases "c = c0")
      case True
      then show ?thesis using o ownj [OF j, of c] ownj [OF k, of c] noown j k by auto
    next
      case False
      then show ?thesis using o ownj [OF j, of c] ownj [OF k, of c] D j k by auto
    qed
  qed
  have E': "\<forall>j < NUM_PHILOSOPHERS.
        (?ps ! j = W_ReserveLeft \<longrightarrow> can_eat ?a j) \<and>
        (?ps ! j = W_ReserveRight \<longrightarrow> ?a ! w_right j)"
  proof (intro allI impI)
    fix j assume j: "j < NUM_PHILOSOPHERS"
    show "(?ps ! j = W_ReserveLeft \<longrightarrow> can_eat ?a j) \<and>
          (?ps ! j = W_ReserveRight \<longrightarrow> ?a ! w_right j)"
    proof (cases "j = i")
      case True
      then show ?thesis using nl nr len i by (auto simp: nth_list_update)
    next
      case False
      then have "\<not> w_in_critical (w_pcs s ! j)" using other j by simp
      then have "w_pcs s ! j \<noteq> W_ReserveLeft \<and> w_pcs s ! j \<noteq> W_ReserveRight" by auto
      then show ?thesis using False by simp
    qed
  qed
  show ?thesis
    unfolding w_inv_def w_goto_def using len B' C' D' E' by simp
qed

lemma w_inv_release:
  assumes inv: "w_inv s" and i: "i < NUM_PHILOSOPHERS" and c0: "c0 < NUM_PHILOSOPHERS"
    and m: "waiter_mutex s = Some i"
    and mine: "w_owns (w_pcs s ! i) i c0"
    and crit: "w_in_critical p'"
    and own: "\<forall>c. w_owns p' i c = (w_owns (w_pcs s ! i) i c \<and> c \<noteq> c0)"
    and nl: "p' \<noteq> W_ReserveLeft" and nr: "p' \<noteq> W_ReserveRight"
  shows "w_inv (w_goto i p' (s\<lparr>chopstick_available := (chopstick_available s)[c0 := True]\<rparr>))"
proof -
  let ?ps = "(w_pcs s)[i := p']"
  let ?a = "(chopstick_available s)[c0 := True]"
  have len: "length (w_pcs s) = NUM_PHILOSOPHERS" "length (chopstick_available s) = NUM_PHILOSOPHERS"
    using inv by (simp_all add: w_inv_def)
  have B: "\<forall>j < NUM_PHILOSOPHERS. w_in_critical (w_pcs s ! j) = (waiter_mutex s = Some j)"
    using inv by (simp add: w_inv_def)
  have C: "\<forall>c < NUM_PHILOSOPHERS.
        chopstick_available s ! c = (\<forall>j < NUM_PHILOSOPHERS. \<not> w_owns (w_pcs s ! j) j c)"
    using inv by (simp add: w_inv_def)
  have D: "\<forall>j < NUM_PHILOSOPHERS. \<forall>k < NUM_PHILOSOPHERS. \<forall>c.
        w_owns (w_pcs s ! j) j c \<and> w_owns (w_pcs s ! k) k c \<longrightarrow> j = k"
    using inv by (simp add: w_inv_def)
  have only: "\<forall>j < NUM_PHILOSOPHERS. w_owns (w_pcs s ! j) j c0 \<longrightarrow> j = i"
    using D mine i by blast
  have other: "\<forall>j < NUM_PHILOSOPHERS. j \<noteq> i \<longrightarrow> \<not> w_in_critical (w_pcs s ! j)"
    using B m by simp
  have ownj: "\<And>j c. j < NUM_PHILOSOPHERS \<Longrightarrow>
        w_owns (?ps ! j) j c = (w_owns (w_pcs s ! j) j c \<and> \<not> (j = i \<and> c = c0))"
    using own len i by (auto simp: nth_list_update)
  have B': "\<forall>j < NUM_PHILOSOPHERS. w_in_critical (?ps ! j) = (waiter_mutex s = Some j)"
    using B m crit len i by (simp add: nth_list_update)
  have C': "\<forall>c < NUM_PHILOSOPHERS.
        ?a ! c = (\<forall>j < NUM_PHILOSOPHERS. \<not> w_owns (?ps ! j) j c)"
  proof (intro allI impI)
    fix c assume c: "c < NUM_PHILOSOPHERS"
    show "?a ! c = (\<forall>j < NUM_PHILOSOPHERS. \<not> w_owns (?ps ! j) j c)"
    proof (cases "c = c0")
      case True
      then show ?thesis using ownj only c len by auto
    next
      case False
      then show ?thesis using C c ownj len by simp
    qed
  qed
  have D': "\<forall>j < NUM_PHILOSOPHERS. \<forall>k < NUM_PHILOSOPHERS. \<forall>c.
        w_owns (?ps ! j) j c \<and> w_owns (?ps ! k) k c \<longrightarrow> j = k"
    using D ownj by blast
  have E': "\<forall>j < NUM_PHILOSOPHERS.
        (?ps ! j = W_ReserveLeft \<longrightarrow> can_eat ?a j) \<and>
        (?ps ! j = W_ReserveRight \<longrightarrow> ?a ! w_right j)"
  proof (intro allI impI)
    fix j assume j: "j < NUM_PHILOSOPHERS"
    show "(?ps ! j = W_ReserveLeft \<longrightarrow> can_eat ?a j) \<and>
          (?ps ! j = W_ReserveRight \<longrightarrow> ?a ! w_right j)"
    proof (cases "j = i")
      case True
      then show ?thesis using nl nr len i by simp
    next
      case False
      then have "\<not> w_in_critical (w_pcs s ! j)" using other j by simp
      then have "w_pcs s ! j \<noteq> W_ReserveLeft \<and> w_pcs s ! j \<noteq> W_ReserveRight" by auto
      then show ?thesis using False by simp
    qed
  qed
  show ?thesis
    unfolding w_inv_def w_goto_def using len B' C' D' E' by simp
qed

lemma w_inv_move:
  assumes inv: "w_inv s" and i: "i < NUM_PHILOSOPHERS"
    and own: "\<forall>c. w_owns p' i c = w_owns (w_pcs s ! i) i c"
    and crit: "w_in_critical p' = (m' = Some i)"
    and oth: "\<forall>j < NUM_PHILOSOPHERS. j \<noteq> i \<longrightarrow> (m' = Some j) = (waiter_mutex s = Some j)"
    and nl: "p' = W_ReserveLeft \<longrightarrow> can_eat (chopstick_available s) i"
    and nr: "p' \<noteq> W_ReserveRight"
  shows "w_inv (w_goto i p' (s\<lparr>waiter_mutex := m'\<rparr>))"
proof -
  let ?ps = "(w_pcs s)[i := p']"
  have len: "length (w_pcs s) = NUM_PHILOSOPHERS"
    using inv by (simp add: w_inv_def)
  have B: "\<forall>j < NUM_PHILOSOPHERS. w_in_critical (w_pcs s ! j) = (waiter_mutex s = Some j)"
    using inv by (simp add: w_inv_def)
  have E: "\<forall>j < NUM_PHILOSOPHERS.
        (w_pcs s ! j = W_ReserveLeft \<longrightarrow> can_eat (chopstick_available s) j) \<and>
        (w_pcs s ! j = W_ReserveRight \<longrightarrow> chopstick_available s ! w_right j)"
    using inv by (simp add: w_inv_def)
  have 1: "\<forall>j < NUM_PHILOSOPHERS. \<forall>c. w_owns (?ps ! j) j c = w_owns (w_pcs s ! j) j c"
    using own len i by (auto simp: nth_list_update)
  have 2: "\<forall>j < NUM_PHILOSOPHERS. w_in_critical (?ps ! j) = (m' = Some j)"
    using B crit oth len i by (auto simp: nth_list_update)
  have 3: "\<forall>j < NUM_PHILOSOPHERS.
        (?ps ! j = W_ReserveLeft \<longrightarrow> can_eat (chopstick_available s) j) \<and>
        (?ps ! j = W_ReserveRight \<longrightarrow> chopstick_available s ! w_right j)"
    using E nl nr len i by (auto simp: nth_list_update)
  have "w_inv (s\<lparr>w_pcs := ?ps, waiter_mutex := m'\<rparr>)"
    using inv _ 1 2 3 by (rule w_inv_quiet) (simp add: len)
  then show ?thesis by (simp add: w_goto_def w_inv_def)
qed

lemma w_inv_stay:
  assumes inv: "w_inv s" and i: "i < NUM_PHILOSOPHERS"
    and own: "\<forall>c. w_owns p' i c = w_owns (w_pcs s ! i) i c"
    and crit: "w_in_critical p' = w_in_critical (w_pcs s ! i)"
    and nl: "p' = W_ReserveLeft \<longrightarrow> can_eat (chopstick_available s) i"
    and nr: "p' \<noteq> W_ReserveRight"
  shows "w_inv (w_goto i p' s)"
proof -
  have B: "\<forall>j < NUM_PHILOSOPHERS. w_in_critical (w_pcs s ! j) = (waiter_mutex s = Some j)"
    using inv by (simp add: w_inv_def)
  have "w_inv (w_goto i p' (s\<lparr>waiter_mutex := waiter_mutex s\<rparr>))"
    using inv i own _ _ nl nr by (rule w_inv_move) (use B crit i in auto)
  then show ?thesis by simp
qed

lemma w_wake_all_nth:
  "j < length ps \<Longrightarrow> w_wake_all ps ! j = (if ps ! j = W_Waiting then W_ReqLock else ps ! j)"
  by (simp add: w_wake_all_def)

lemma w_inv_notify:
  assumes inv: "w_inv s" and i: "i < NUM_PHILOSOPHERS" and p: "w_pcs s ! i = W_Notify"
  shows "w_inv (w_goto i W_RetUnlock (s\<lparr>w_pcs := w_wake_all (w_pcs s)\<rparr>))"
proof -
  let ?ps = "(w_wake_all (w_pcs s))[i := W_RetUnlock]"
  have len: "length (w_pcs s) = NUM_PHILOSOPHERS"
    using inv by (simp add: w_inv_def)
  have lenw: "length (w_wake_all (w_pcs s)) = NUM_PHILOSOPHERS"
    using len by (simp add: w_wake_all_def)
  have B: "\<forall>j < NUM_PHILOSOPHERS. w_in_critical (w_pcs s ! j) = (waiter_mutex s = Some j)"
    using inv by (simp add: w_inv_def)
  have E: "\<forall>j < NUM_PHILOSOPHERS.
        (w_pcs s ! j = W_ReserveLeft \<longrightarrow> can_eat (chopstick_available s) j) \<and>
        (w_pcs s ! j = W_ReserveRight \<longrightarrow> chopstick_available s ! w_right j)"
    using inv by (simp add: w_inv_def)
  have 1: "\<forall>j < NUM_PHILOSOPHERS. \<forall>c. w_owns (?ps ! j) j c = w_owns (w_pcs s ! j) j c"
    using p len lenw i by (auto simp: nth_list_update w_wake_all_nth)
  have 2: "\<forall>j < NUM_PHILOSOPHERS. w_in_critical (?ps ! j) = (waiter_mutex s = Some j)"
    using B p len lenw i by (auto simp: nth_list_update w_wake_all_nth)
  have 3: "\<forall>j < NUM_PHILOSOPHERS.
        (?ps ! j = W_ReserveLeft \<longrightarrow> can_eat (chopstick_available s) j) \<and>
        (?ps ! j = W_ReserveRight \<longrightarrow> chopstick_available s ! w_right j)"
    using E p len lenw i by (auto simp: nth_list_update w_wake_all_nth)
  have "w_inv (s\<lparr>w_pcs := ?ps, waiter_mutex := waiter_mutex s\<rparr>)"
    using inv _ 1 2 3 by (rule w_inv_quiet) (simp add: lenw)
  then show ?thesis by (simp add: w_goto_def w_inv_def)
qed

lemma w_exec_inv:
  assumes inv: "w_inv s" and i: "i < NUM_PHILOSOPHERS"
    and ex: "w_exec (w_pcs s ! i) i s = Some s'"
  shows "w_inv s'"
proof -
  have B: "w_in_critical (w_pcs s ! i) = (waiter_mutex s = Some i)"
    using inv i by (simp add: w_inv_def)
  have E: "(w_pcs s ! i = W_ReserveLeft \<longrightarrow> can_eat (chopstick_available s) i) \<and>
        (w_pcs s ! i = W_ReserveRight \<longrightarrow> chopstick_available s ! w_right i)"
    using inv i by (simp add: w_inv_def)
  have r: "w_right i < NUM_PHILOSOPHERS" "w_right i \<noteq> i"
    using i by (simp_all add: w_right_less w_right_neq)
  show ?thesis
  proof (cases "w_pcs s ! i")
    case W_LoopHead
    then show ?thesis using ex w_inv_stay [OF inv i, of W_Think] w_inv_stay [OF inv i, of W_Done]
      by (auto split: if_splits)
  next
    case W_Think
    then show ?thesis using ex w_inv_stay [OF inv i, of W_ReqLock] by auto
  next
    case W_ReqLock
    then show ?thesis using ex w_inv_move [OF inv i, of W_ReqCheck "Some i"]
      by (auto split: if_splits)
  next
    case W_ReqCheck
    then show ?thesis
      using ex B w_inv_stay [OF inv i, of W_ReserveLeft] w_inv_move [OF inv i, of W_Waiting None]
      by (auto split: if_splits)
  next
    case W_Waiting
    then show ?thesis using ex by simp
  next
    case W_ReserveLeft
    then show ?thesis
      using ex B E r w_inv_reserve [OF inv i i, of W_ReserveRight]
      by (auto simp: can_eat_def w_right_def)
  next
    case W_ReserveRight
    then show ?thesis
      using ex B E r w_inv_reserve [OF inv i r(1), of W_ReqUnlock]
      by auto
  next
    case W_ReqUnlock
    then show ?thesis using ex B w_inv_move [OF inv i, of W_Eat None] by auto
  next
    case W_Eat
    then show ?thesis using ex w_inv_stay [OF inv i, of W_RetLock] by auto
  next
    case W_RetLock
    then show ?thesis using ex w_inv_move [OF inv i, of W_RetLeft "Some i"]
      by (auto split: if_splits)
  next
    case W_RetLeft
    have "\<forall>c. w_owns W_RetRight i c = (w_owns (w_pcs s ! i) i c \<and> c \<noteq> i)"
      using W_RetLeft r by auto
    then have "w_inv (w_goto i W_RetRight
                 (s\<lparr>chopstick_available := (chopstick_available s)[i := True]\<rparr>))"
      using B W_RetLeft by (intro w_inv_release [OF inv i i]) auto
    then show ?thesis using ex W_RetLeft by simp
  next
    case W_RetRight
    then show ?thesis
      using ex B r w_inv_release [OF inv i r(1), of W_Notify]
      by auto
  next
    case W_Notify
    then show ?thesis using ex w_inv_notify [OF inv i] by simp
  next
    case W_RetUnlock
    have "w_inv (w_goto i W_LoopHead (s\<lparr>waiter_mutex := None\<rparr>))"
      using B W_RetUnlock by (intro w_inv_move [OF inv i]) auto
    then have "w_inv ((w_goto i W_LoopHead (s\<lparr>waiter_mutex := None\<rparr>))
                        \<lparr>w_meal := (w_meal s)[i := w_meal s ! i + 1]\<rparr>)"
      by (simp add: w_inv_def)
    moreover have "s' = (w_goto i W_LoopHead (s\<lparr>waiter_mutex := None\<rparr>))
                        \<lparr>w_meal := (w_meal s)[i := w_meal s ! i + 1]\<rparr>"
      using ex W_RetUnlock by (cases s) (auto simp: w_goto_def)
    ultimately show ?thesis by simp
  next
    case W_Done
    then show ?thesis using ex by simp
  qed
qed

lemma w_step_inv: "w_inv s \<Longrightarrow> w_step s e = Some s' \<Longrightarrow> w_inv s'"
proof (cases e)
  case (Go i)
  assume "w_inv s" "w_step s e = Some s'"
  then show ?thesis using Go by (auto intro: w_exec_inv split: if_splits)
next
  case (Wake i)
  assume a: "w_inv s" "w_step s e = Some s'"
  then have i: "i < NUM_PHILOSOPHERS" and p: "w_pcs s ! i = W_Waiting"
    and s': "s' = w_goto i W_ReqLock s"
    using Wake by (auto split: if_splits)
  show ?thesis unfolding s' using p by (intro w_inv_stay [OF a(1) i]) auto
qed

lemma w_run_inv: "w_inv s \<Longrightarrow> w_inv (w_run s es)"
  by (induction es arbitrary: s) (auto split: option.splits dest: w_step_inv)

lemma w_reach_inv: "w_inv (w_run w_init es)"
  by (rule w_run_inv [OF w_inv_init])

lemmas w_eval = w_init_def NUM_PHILOSOPHERS_def w_goto_def w_right_def can_eat_def w_wake_all_def

subsection \<open>Grant and release as one step each\<close>

text \<open>
  A thread that runs alone from the call of \<^verbatim>\<open>request_chopsticks\<close> to its return takes
  five steps and changes the ledger as the function of the ledger says; likewise for
  \<^verbatim>\<open>return_chopsticks\<close>.
\<close>

lemma w_request_refines:
  assumes "i < NUM_PHILOSOPHERS" "length (w_pcs s) = NUM_PHILOSOPHERS"
    and "w_pcs s ! i = W_ReqLock" "waiter_mutex s = None"
    and "can_eat (chopstick_available s) i"
  shows "request_chopsticks (chopstick_available s) i
           = Some (chopstick_available (w_run s [Go i, Go i, Go i, Go i, Go i])) \<and>
         w_pcs (w_run s [Go i, Go i, Go i, Go i, Go i]) ! i = W_Eat"
  using assms by (simp add: request_chopsticks_def w_goto_def w_right_def)

lemma w_return_refines:
  assumes "i < NUM_PHILOSOPHERS" "length (w_pcs s) = NUM_PHILOSOPHERS"
    and "w_pcs s ! i = W_RetLock" "waiter_mutex s = None"
  shows "return_chopsticks (chopstick_available s) i
           = chopstick_available (w_run s [Go i, Go i, Go i, Go i, Go i]) \<and>
         w_pcs (w_run s [Go i, Go i, Go i, Go i, Go i]) ! i = W_LoopHead"
  using assms by (simp add: return_chopsticks_def w_goto_def w_right_def w_wake_all_def)

lemma w_request_waits:
  assumes "i < NUM_PHILOSOPHERS" "length (w_pcs s) = NUM_PHILOSOPHERS"
    and "w_pcs s ! i = W_ReqLock" "waiter_mutex s = None"
    and "\<not> can_eat (chopstick_available s) i"
  shows "w_pcs (w_run s [Go i, Go i]) ! i = W_Waiting \<and>
         chopstick_available (w_run s [Go i, Go i]) = chopstick_available s \<and>
         waiter_mutex (w_run s [Go i, Go i]) = None \<and>
         w_step (w_run s [Go i, Go i]) (Go i) = None"
  using assms by (simp add: w_goto_def)

text \<open>
  C9, as the code has it. For every philosopher \<open>pid\<close> below 5 and every ledger of five
  entries: \<^verbatim>\<open>request_chopsticks(pid)\<close> returns exactly when entries \<open>pid\<close> and
  \<open>(pid + 1) mod 5\<close> are both available, and then has made these two false and left
  every other entry as it was; from such a ledger, \<^verbatim>\<open>return_chopsticks(pid)\<close>
  afterwards gives the ledger before the request back. On any ledger \<open>a\<close> of five entries
  the return makes exactly these two entries true and leaves every other entry as it was.
  The two functions are what a thread of the interleaving model does to the ledger between
  call and return: with both entries available the thread running alone reaches the eating
  delay in five steps; with one of them unavailable it parks inside \<^verbatim>\<open>wait\<close> after two
  steps, the ledger untouched and the mutex released, and cannot move.
\<close>

theorem w_request_then_return_restores:
  assumes "pid < NUM_PHILOSOPHERS" "length avail = NUM_PHILOSOPHERS" "length a = NUM_PHILOSOPHERS"
  shows "request_chopsticks avail pid
           = (if avail ! pid \<and> avail ! ((pid + 1) mod NUM_PHILOSOPHERS)
              then Some (avail[pid := False, (pid + 1) mod NUM_PHILOSOPHERS := False]) else None) \<and>
         (avail ! pid \<and> avail ! ((pid + 1) mod NUM_PHILOSOPHERS) \<longrightarrow>
            (\<exists>avail'. request_chopsticks avail pid = Some avail' \<and>
               return_chopsticks avail' pid = avail \<and>
               length avail' = NUM_PHILOSOPHERS \<and>
               (\<forall>k < NUM_PHILOSOPHERS. avail' ! k =
                  (if k = pid \<or> k = (pid + 1) mod NUM_PHILOSOPHERS then False else avail ! k)))) \<and>
         (\<forall>k < NUM_PHILOSOPHERS. return_chopsticks a pid ! k =
            (if k = pid \<or> k = (pid + 1) mod NUM_PHILOSOPHERS then True else a ! k)) \<and>
         length (return_chopsticks a pid) = NUM_PHILOSOPHERS \<and>
         (\<forall>s. length (w_pcs s) = NUM_PHILOSOPHERS \<and> w_pcs s ! pid = W_ReqLock \<and>
              waiter_mutex s = None \<and> chopstick_available s = avail \<and>
              avail ! pid \<and> avail ! ((pid + 1) mod NUM_PHILOSOPHERS) \<longrightarrow>
              Some (chopstick_available (w_run s [Go pid, Go pid, Go pid, Go pid, Go pid]))
                = request_chopsticks avail pid \<and>
              w_pcs (w_run s [Go pid, Go pid, Go pid, Go pid, Go pid]) ! pid = W_Eat) \<and>
         (\<forall>s. length (w_pcs s) = NUM_PHILOSOPHERS \<and> w_pcs s ! pid = W_ReqLock \<and>
              waiter_mutex s = None \<and> chopstick_available s = avail \<and>
              \<not> (avail ! pid \<and> avail ! ((pid + 1) mod NUM_PHILOSOPHERS)) \<longrightarrow>
              w_pcs (w_run s [Go pid, Go pid]) ! pid = W_Waiting \<and>
              chopstick_available (w_run s [Go pid, Go pid]) = avail \<and>
              waiter_mutex (w_run s [Go pid, Go pid]) = None \<and>
              w_step (w_run s [Go pid, Go pid]) (Go pid) = None) \<and>
         (\<forall>s. length (w_pcs s) = NUM_PHILOSOPHERS \<and> w_pcs s ! pid = W_RetLock \<and>
              waiter_mutex s = None \<and> chopstick_available s = a \<longrightarrow>
              chopstick_available (w_run s [Go pid, Go pid, Go pid, Go pid, Go pid])
                = return_chopsticks a pid)"
proof -
  let ?r = "(pid + 1) mod NUM_PHILOSOPHERS"
  let ?both = "avail ! pid \<and> avail ! ?r"
  have r: "?r < NUM_PHILOSOPHERS" by (simp add: NUM_PHILOSOPHERS_def)
  have ce: "can_eat avail pid = ?both"
    by (simp add: can_eat_def Let_def)
  have 1: "request_chopsticks avail pid
             = (if ?both then Some (avail[pid := False, ?r := False]) else None)"
    by (simp add: request_chopsticks_def can_eat_def Let_def)
  have restore: "return_chopsticks (avail[pid := False, ?r := False]) pid = avail" if b: "?both"
    unfolding return_chopsticks_def Let_def
    using b assms(1,2) r
    by (intro nth_equalityI) (auto simp: nth_list_update)
  have frame: "\<forall>k < NUM_PHILOSOPHERS. avail[pid := False, ?r := False] ! k =
                 (if k = pid \<or> k = ?r then False else avail ! k)"
    using assms(1,2) r by (auto simp: nth_list_update)
  have 2: "?both \<longrightarrow>
            (\<exists>avail'. request_chopsticks avail pid = Some avail' \<and>
               return_chopsticks avail' pid = avail \<and>
               length avail' = NUM_PHILOSOPHERS \<and>
               (\<forall>k < NUM_PHILOSOPHERS. avail' ! k =
                  (if k = pid \<or> k = ?r then False else avail ! k)))"
  proof
    assume b: "?both"
    have "request_chopsticks avail pid = Some (avail[pid := False, ?r := False])"
      using 1 b by simp
    moreover have "length (avail[pid := False, ?r := False]) = NUM_PHILOSOPHERS"
      using assms(2) by simp
    ultimately show "\<exists>avail'. request_chopsticks avail pid = Some avail' \<and>
               return_chopsticks avail' pid = avail \<and>
               length avail' = NUM_PHILOSOPHERS \<and>
               (\<forall>k < NUM_PHILOSOPHERS. avail' ! k =
                  (if k = pid \<or> k = ?r then False else avail ! k))"
      using restore [OF b] frame by blast
  qed
  have 3: "\<forall>k < NUM_PHILOSOPHERS. return_chopsticks a pid ! k =
            (if k = pid \<or> k = ?r then True else a ! k)"
    unfolding return_chopsticks_def Let_def using assms(1,3) r by (auto simp: nth_list_update)
  have 4: "length (return_chopsticks a pid) = NUM_PHILOSOPHERS"
    unfolding return_chopsticks_def Let_def using assms(3) by simp
  have 5: "\<forall>s. length (w_pcs s) = NUM_PHILOSOPHERS \<and> w_pcs s ! pid = W_ReqLock \<and>
              waiter_mutex s = None \<and> chopstick_available s = avail \<and> ?both \<longrightarrow>
              Some (chopstick_available (w_run s [Go pid, Go pid, Go pid, Go pid, Go pid]))
                = request_chopsticks avail pid \<and>
              w_pcs (w_run s [Go pid, Go pid, Go pid, Go pid, Go pid]) ! pid = W_Eat"
  proof (intro allI impI)
    fix s :: w_state
    assume h: "length (w_pcs s) = NUM_PHILOSOPHERS \<and> w_pcs s ! pid = W_ReqLock \<and>
              waiter_mutex s = None \<and> chopstick_available s = avail \<and> ?both"
    then have "can_eat (chopstick_available s) pid" using ce by simp
    then have "request_chopsticks (chopstick_available s) pid
           = Some (chopstick_available (w_run s [Go pid, Go pid, Go pid, Go pid, Go pid])) \<and>
         w_pcs (w_run s [Go pid, Go pid, Go pid, Go pid, Go pid]) ! pid = W_Eat"
      using w_request_refines [OF assms(1), of s] h by simp
    then show "Some (chopstick_available (w_run s [Go pid, Go pid, Go pid, Go pid, Go pid]))
                = request_chopsticks avail pid \<and>
              w_pcs (w_run s [Go pid, Go pid, Go pid, Go pid, Go pid]) ! pid = W_Eat"
      using h by simp
  qed
  have 6: "\<forall>s. length (w_pcs s) = NUM_PHILOSOPHERS \<and> w_pcs s ! pid = W_ReqLock \<and>
              waiter_mutex s = None \<and> chopstick_available s = avail \<and> \<not> ?both \<longrightarrow>
              w_pcs (w_run s [Go pid, Go pid]) ! pid = W_Waiting \<and>
              chopstick_available (w_run s [Go pid, Go pid]) = avail \<and>
              waiter_mutex (w_run s [Go pid, Go pid]) = None \<and>
              w_step (w_run s [Go pid, Go pid]) (Go pid) = None"
  proof (intro allI impI)
    fix s :: w_state
    assume h: "length (w_pcs s) = NUM_PHILOSOPHERS \<and> w_pcs s ! pid = W_ReqLock \<and>
              waiter_mutex s = None \<and> chopstick_available s = avail \<and> \<not> ?both"
    then have "\<not> can_eat (chopstick_available s) pid" using ce by simp
    then have "w_pcs (w_run s [Go pid, Go pid]) ! pid = W_Waiting \<and>
         chopstick_available (w_run s [Go pid, Go pid]) = chopstick_available s \<and>
         waiter_mutex (w_run s [Go pid, Go pid]) = None \<and>
         w_step (w_run s [Go pid, Go pid]) (Go pid) = None"
      using w_request_waits [OF assms(1), of s] h by simp
    then show "w_pcs (w_run s [Go pid, Go pid]) ! pid = W_Waiting \<and>
              chopstick_available (w_run s [Go pid, Go pid]) = avail \<and>
              waiter_mutex (w_run s [Go pid, Go pid]) = None \<and>
              w_step (w_run s [Go pid, Go pid]) (Go pid) = None"
      using h by simp
  qed
  have 7: "\<forall>s. length (w_pcs s) = NUM_PHILOSOPHERS \<and> w_pcs s ! pid = W_RetLock \<and>
              waiter_mutex s = None \<and> chopstick_available s = a \<longrightarrow>
              chopstick_available (w_run s [Go pid, Go pid, Go pid, Go pid, Go pid])
                = return_chopsticks a pid"
    using w_return_refines [OF assms(1)] by metis
  show ?thesis using 1 2 3 4 5 6 7 by blast
qed

theorem w_request_then_return_restores_witness:
  "(4::nat) < NUM_PHILOSOPHERS \<and>
   length [True, True, False, True, True] = NUM_PHILOSOPHERS \<and>
   length [False, True, False, False, False] = NUM_PHILOSOPHERS \<and>
   [True, True, False, True, True] ! 4 \<and>
   [True, True, False, True, True] ! ((4 + 1) mod NUM_PHILOSOPHERS) \<and>
   request_chopsticks [True, True, False, True, True] 4 = Some [False, True, False, True, False] \<and>
   return_chopsticks [False, True, False, True, False] 4 = [True, True, False, True, True] \<and>
   request_chopsticks [False, True, False, False, False] 4 = None"
proof -
  have h: "(4::nat) < NUM_PHILOSOPHERS"
    "length [True, True, False, True, True] = NUM_PHILOSOPHERS"
    "length [False, True, False, False, False] = NUM_PHILOSOPHERS"
    by (simp_all add: NUM_PHILOSOPHERS_def)
  have b: "[True, True, False, True, True] ! 4"
    "[True, True, False, True, True] ! ((4 + 1) mod NUM_PHILOSOPHERS)"
    by (simp_all add: NUM_PHILOSOPHERS_def)
  have u: "[True, True, False, True, True][4 := False, (4 + 1) mod NUM_PHILOSOPHERS := False]
             = [False, True, False, True, False]"
    by (simp add: NUM_PHILOSOPHERS_def)
  have nb: "\<not> ([False, True, False, False, False] ! 4 \<and>
                [False, True, False, False, False] ! ((4 + 1) mod NUM_PHILOSOPHERS))"
    by (simp add: NUM_PHILOSOPHERS_def)
  note t = w_request_then_return_restores [OF h(1) h(2) h(3)]
  have q: "request_chopsticks [True, True, False, True, True] 4
             = Some [False, True, False, True, False]"
    using t b u by simp
  have "\<exists>avail'. request_chopsticks [True, True, False, True, True] 4 = Some avail' \<and>
           return_chopsticks avail' 4 = [True, True, False, True, True]"
    using t b by blast
  then have g: "return_chopsticks [False, True, False, True, False] 4 = [True, True, False, True, True]"
    using q by simp
  have n: "request_chopsticks [False, True, False, False, False] 4 = None"
    using w_request_then_return_restores [OF h(1) h(3) h(3)] nb by simp
  show ?thesis using h b q g n by (simp only: simp_thms)
qed

text \<open>
  C9, as stated, holds for every ledger state. Philosopher 0 eats, so the ledger is
  (false, false, true, true, true) when philosopher 1 calls \<^verbatim>\<open>request_chopsticks\<close>; the
  call waits until philosopher 0 has returned its chopsticks, and after philosopher 1 has
  eaten and called \<^verbatim>\<open>return_chopsticks\<close> the ledger is all true, not the ledger the
  request was called on.
\<close>

theorem w_round_trip_counterexample:
  "w_pcs (w_run w_init [Go 0, Go 0, Go 0, Go 0, Go 0, Go 0, Go 0, Go 1, Go 1]) ! 1 = W_ReqLock \<and>
   chopstick_available (w_run w_init [Go 0, Go 0, Go 0, Go 0, Go 0, Go 0, Go 0, Go 1, Go 1])
     = [False, False, True, True, True] \<and>
   request_chopsticks [False, False, True, True, True] 1 = None \<and>
   w_pcs (w_run w_init [Go 0, Go 0, Go 0, Go 0, Go 0, Go 0, Go 0, Go 1, Go 1,
                        Go 1, Go 1]) ! 1 = W_Waiting \<and>
   w_pcs (w_run w_init [Go 0, Go 0, Go 0, Go 0, Go 0, Go 0, Go 0, Go 1, Go 1,
                        Go 1, Go 1, Go 0, Go 0, Go 0, Go 0, Go 0, Go 0,
                        Go 1, Go 1, Go 1, Go 1, Go 1]) ! 1 = W_Eat \<and>
   w_pcs (w_run w_init [Go 0, Go 0, Go 0, Go 0, Go 0, Go 0, Go 0, Go 1, Go 1,
                        Go 1, Go 1, Go 0, Go 0, Go 0, Go 0, Go 0, Go 0,
                        Go 1, Go 1, Go 1, Go 1, Go 1,
                        Go 1, Go 1, Go 1, Go 1, Go 1, Go 1]) ! 1 = W_LoopHead \<and>
   chopstick_available (w_run w_init [Go 0, Go 0, Go 0, Go 0, Go 0, Go 0, Go 0, Go 1, Go 1,
                        Go 1, Go 1, Go 0, Go 0, Go 0, Go 0, Go 0, Go 0,
                        Go 1, Go 1, Go 1, Go 1, Go 1,
                        Go 1, Go 1, Go 1, Go 1, Go 1, Go 1])
     = [True, True, True, True, True] \<and>
   [True, True, True, True, True] \<noteq> [False, False, True, True, True]"
  by code_simp

subsection \<open>Claims about the ledger\<close>

text \<open>A thread outside the critical section takes its step without reading the ledger.\<close>

lemma w_step_ignores_ledger:
  assumes "\<not> w_in_critical (w_pcs s ! j)"
  shows "w_step (s\<lparr>chopstick_available := a\<rparr>) (Go j)
           = map_option (chopstick_available_update (\<lambda>_. a)) (w_step s (Go j)) \<and>
         w_step (s\<lparr>chopstick_available := a\<rparr>) (Wake j)
           = map_option (chopstick_available_update (\<lambda>_. a)) (w_step s (Wake j))"
  using assms by (cases "w_pcs s ! j") (auto simp: w_goto_def)

text \<open>
  C2. In every state of every run of the Arbiter strategy and for every philosopher \<open>i\<close>:
  the thread is about to write the ledger in \<^verbatim>\<open>request_chopsticks\<close> only while it
  holds \<^verbatim>\<open>waiter_mutex\<close> and, before the first write, with both its entries available;
  between the two writes (one entry changed, the other not) it holds the mutex and no
  other thread is inside a critical section; when it leaves the critical section, and
  while it eats, both entries are unavailable. A thread outside the critical sections
  takes its step, if it has one, without reading the ledger, so no thread observes the
  state between the two writes.
\<close>

theorem w_grant_is_atomic:
  assumes "i < NUM_PHILOSOPHERS"
  shows "(w_pcs (w_run w_init es) ! i = W_ReserveLeft \<longrightarrow>
            waiter_mutex (w_run w_init es) = Some i \<and>
            chopstick_available (w_run w_init es) ! i \<and>
            chopstick_available (w_run w_init es) ! ((i + 1) mod NUM_PHILOSOPHERS)) \<and>
         (w_pcs (w_run w_init es) ! i = W_ReserveRight \<longrightarrow>
            waiter_mutex (w_run w_init es) = Some i \<and>
            \<not> chopstick_available (w_run w_init es) ! i \<and>
            chopstick_available (w_run w_init es) ! ((i + 1) mod NUM_PHILOSOPHERS) \<and>
            (\<forall>j < NUM_PHILOSOPHERS. j \<noteq> i \<longrightarrow> \<not> w_in_critical (w_pcs (w_run w_init es) ! j))) \<and>
         (w_pcs (w_run w_init es) ! i = W_ReqUnlock \<or> w_pcs (w_run w_init es) ! i = W_Eat \<longrightarrow>
            \<not> chopstick_available (w_run w_init es) ! i \<and>
            \<not> chopstick_available (w_run w_init es) ! ((i + 1) mod NUM_PHILOSOPHERS)) \<and>
         (\<forall>j < NUM_PHILOSOPHERS. \<not> w_in_critical (w_pcs (w_run w_init es) ! j) \<longrightarrow>
            (\<forall>a. w_step ((w_run w_init es)\<lparr>chopstick_available := a\<rparr>) (Go j)
                   = map_option (chopstick_available_update (\<lambda>_. a)) (w_step (w_run w_init es) (Go j)) \<and>
                 w_step ((w_run w_init es)\<lparr>chopstick_available := a\<rparr>) (Wake j)
                   = map_option (chopstick_available_update (\<lambda>_. a))
                       (w_step (w_run w_init es) (Wake j))))"
proof -
  let ?s = "w_run w_init es"
  let ?r = "(i + 1) mod NUM_PHILOSOPHERS"
  have inv: "w_inv ?s" by (rule w_reach_inv)
  have r: "?r < NUM_PHILOSOPHERS" "w_right i = ?r" by (simp_all add: NUM_PHILOSOPHERS_def w_right_def)
  have B: "\<forall>j < NUM_PHILOSOPHERS. w_in_critical (w_pcs ?s ! j) = (waiter_mutex ?s = Some j)"
    using inv by (simp add: w_inv_def)
  have C: "\<forall>c < NUM_PHILOSOPHERS.
        chopstick_available ?s ! c = (\<forall>k < NUM_PHILOSOPHERS. \<not> w_owns (w_pcs ?s ! k) k c)"
    using inv by (simp add: w_inv_def)
  have E: "(w_pcs ?s ! i = W_ReserveLeft \<longrightarrow> can_eat (chopstick_available ?s) i) \<and>
        (w_pcs ?s ! i = W_ReserveRight \<longrightarrow> chopstick_available ?s ! w_right i)"
    using inv assms by (simp add: w_inv_def)
  have Bi: "w_in_critical (w_pcs ?s ! i) = (waiter_mutex ?s = Some i)"
    using B assms by simp
  have 1: "w_pcs ?s ! i = W_ReserveLeft \<longrightarrow>
            waiter_mutex ?s = Some i \<and> chopstick_available ?s ! i \<and> chopstick_available ?s ! ?r"
    using Bi E by (auto simp: can_eat_def Let_def)
  have left: "w_owns (w_pcs ?s ! i) i i \<longrightarrow> \<not> chopstick_available ?s ! i"
    using C assms by blast
  have right: "w_owns (w_pcs ?s ! i) i ?r \<longrightarrow> \<not> chopstick_available ?s ! ?r"
    using C assms r(1) by blast
  have 2: "w_pcs ?s ! i = W_ReserveRight \<longrightarrow>
            waiter_mutex ?s = Some i \<and> \<not> chopstick_available ?s ! i \<and>
            chopstick_available ?s ! ?r \<and>
            (\<forall>j < NUM_PHILOSOPHERS. j \<noteq> i \<longrightarrow> \<not> w_in_critical (w_pcs ?s ! j))"
  proof
    assume p: "w_pcs ?s ! i = W_ReserveRight"
    then have m: "waiter_mutex ?s = Some i" using Bi by simp
    have "\<not> chopstick_available ?s ! i" using left p by simp
    moreover have "chopstick_available ?s ! ?r" using E p r(2) by simp
    moreover have "\<forall>j < NUM_PHILOSOPHERS. j \<noteq> i \<longrightarrow> \<not> w_in_critical (w_pcs ?s ! j)"
      using B m by simp
    ultimately show "waiter_mutex ?s = Some i \<and> \<not> chopstick_available ?s ! i \<and>
            chopstick_available ?s ! ?r \<and>
            (\<forall>j < NUM_PHILOSOPHERS. j \<noteq> i \<longrightarrow> \<not> w_in_critical (w_pcs ?s ! j))"
      using m by blast
  qed
  have 3: "w_pcs ?s ! i = W_ReqUnlock \<or> w_pcs ?s ! i = W_Eat \<longrightarrow>
            \<not> chopstick_available ?s ! i \<and> \<not> chopstick_available ?s ! ?r"
    using left right r(2) by auto
  have 4: "\<forall>j < NUM_PHILOSOPHERS. \<not> w_in_critical (w_pcs ?s ! j) \<longrightarrow>
            (\<forall>a. w_step (?s\<lparr>chopstick_available := a\<rparr>) (Go j)
                   = map_option (chopstick_available_update (\<lambda>_. a)) (w_step ?s (Go j)) \<and>
                 w_step (?s\<lparr>chopstick_available := a\<rparr>) (Wake j)
                   = map_option (chopstick_available_update (\<lambda>_. a)) (w_step ?s (Wake j)))"
    using w_step_ignores_ledger by blast
  show ?thesis using 1 2 3 4 by blast
qed

theorem w_grant_is_atomic_witness:
  "(0::nat) < NUM_PHILOSOPHERS \<and>
   w_pcs (w_run w_init [Go 0, Go 0, Go 0, Go 0]) ! 0 = W_ReserveLeft \<and>
   waiter_mutex (w_run w_init [Go 0, Go 0, Go 0, Go 0]) = Some 0 \<and>
   w_pcs (w_run w_init [Go 0, Go 0, Go 0, Go 0, Go 0]) ! 0 = W_ReserveRight \<and>
   \<not> chopstick_available (w_run w_init [Go 0, Go 0, Go 0, Go 0, Go 0]) ! 0 \<and>
   chopstick_available (w_run w_init [Go 0, Go 0, Go 0, Go 0, Go 0]) ! ((0 + 1) mod NUM_PHILOSOPHERS) \<and>
   (1::nat) < NUM_PHILOSOPHERS \<and>
   \<not> w_in_critical (w_pcs (w_run w_init [Go 0, Go 0, Go 0, Go 0, Go 0]) ! 1) \<and>
   w_pcs (w_run w_init [Go 0, Go 0, Go 0, Go 0, Go 0, Go 0, Go 0]) ! 0 = W_Eat \<and>
   \<not> chopstick_available (w_run w_init [Go 0, Go 0, Go 0, Go 0, Go 0, Go 0, Go 0])
       ! ((0 + 1) mod NUM_PHILOSOPHERS)"
proof -
  have h: "(0::nat) < NUM_PHILOSOPHERS" "(1::nat) < NUM_PHILOSOPHERS"
    by (simp_all add: NUM_PHILOSOPHERS_def)
  have p: "w_pcs (w_run w_init [Go 0, Go 0, Go 0, Go 0]) ! 0 = W_ReserveLeft"
    "w_pcs (w_run w_init [Go 0, Go 0, Go 0, Go 0, Go 0]) ! 0 = W_ReserveRight"
    "w_pcs (w_run w_init [Go 0, Go 0, Go 0, Go 0, Go 0, Go 0, Go 0]) ! 0 = W_Eat"
    by (simp_all add: w_eval)
  have a: "waiter_mutex (w_run w_init [Go 0, Go 0, Go 0, Go 0]) = Some 0"
    using w_grant_is_atomic [OF h(1), of "[Go 0, Go 0, Go 0, Go 0]"] p(1) by blast
  have b: "\<not> chopstick_available (w_run w_init [Go 0, Go 0, Go 0, Go 0, Go 0]) ! 0 \<and>
     chopstick_available (w_run w_init [Go 0, Go 0, Go 0, Go 0, Go 0]) ! ((0 + 1) mod NUM_PHILOSOPHERS) \<and>
     \<not> w_in_critical (w_pcs (w_run w_init [Go 0, Go 0, Go 0, Go 0, Go 0]) ! 1)"
    using w_grant_is_atomic [OF h(1), of "[Go 0, Go 0, Go 0, Go 0, Go 0]"] p(2) h(2) by auto
  have c: "\<not> chopstick_available (w_run w_init [Go 0, Go 0, Go 0, Go 0, Go 0, Go 0, Go 0])
       ! ((0 + 1) mod NUM_PHILOSOPHERS)"
    using w_grant_is_atomic [OF h(1), of "[Go 0, Go 0, Go 0, Go 0, Go 0, Go 0, Go 0]"] p(3) by blast
  show ?thesis using h p a b c by (simp only: simp_thms)
qed

text \<open>
  C3. In every state of every run of the Arbiter strategy: no ledger entry is owned by
  two threads; an entry is available exactly when no thread owns it; and two different
  philosophers that eat at the same time have no chopstick in common.
\<close>

theorem w_single_owner:
  assumes "i < NUM_PHILOSOPHERS" "j < NUM_PHILOSOPHERS"
  shows "(w_owns (w_pcs (w_run w_init es) ! i) i c \<and> w_owns (w_pcs (w_run w_init es) ! j) j c
            \<longrightarrow> i = j) \<and>
         (c < NUM_PHILOSOPHERS \<longrightarrow>
            chopstick_available (w_run w_init es) ! c
              = (\<forall>k < NUM_PHILOSOPHERS. \<not> w_owns (w_pcs (w_run w_init es) ! k) k c)) \<and>
         (w_pcs (w_run w_init es) ! i = W_Eat \<and> w_pcs (w_run w_init es) ! j = W_Eat \<and> i \<noteq> j
            \<longrightarrow> i \<noteq> (j + 1) mod NUM_PHILOSOPHERS \<and> j \<noteq> (i + 1) mod NUM_PHILOSOPHERS)"
proof -
  let ?s = "w_run w_init es"
  have inv: "w_inv ?s" by (rule w_reach_inv)
  have C: "\<forall>c < NUM_PHILOSOPHERS.
        chopstick_available ?s ! c = (\<forall>k < NUM_PHILOSOPHERS. \<not> w_owns (w_pcs ?s ! k) k c)"
    using inv by (simp add: w_inv_def)
  have D: "\<forall>i < NUM_PHILOSOPHERS. \<forall>j < NUM_PHILOSOPHERS. \<forall>c.
        w_owns (w_pcs ?s ! i) i c \<and> w_owns (w_pcs ?s ! j) j c \<longrightarrow> i = j"
    using inv by (simp add: w_inv_def)
  have 1: "w_owns (w_pcs ?s ! i) i c \<and> w_owns (w_pcs ?s ! j) j c \<longrightarrow> i = j"
    using D assms by blast
  have 3: "w_pcs ?s ! i = W_Eat \<and> w_pcs ?s ! j = W_Eat \<and> i \<noteq> j
            \<longrightarrow> i \<noteq> (j + 1) mod NUM_PHILOSOPHERS \<and> j \<noteq> (i + 1) mod NUM_PHILOSOPHERS"
  proof (intro impI)
    assume e: "w_pcs ?s ! i = W_Eat \<and> w_pcs ?s ! j = W_Eat \<and> i \<noteq> j"
    have "\<not> (w_owns (w_pcs ?s ! i) i i \<and> w_owns (w_pcs ?s ! j) j i)"
      using D assms e by blast
    moreover have "\<not> (w_owns (w_pcs ?s ! i) i j \<and> w_owns (w_pcs ?s ! j) j j)"
      using D assms e by blast
    ultimately show "i \<noteq> (j + 1) mod NUM_PHILOSOPHERS \<and> j \<noteq> (i + 1) mod NUM_PHILOSOPHERS"
      using e by (auto simp: w_right_def)
  qed
  show ?thesis using 1 C 3 by blast
qed

theorem w_single_owner_witness:
  "(0::nat) < NUM_PHILOSOPHERS \<and> (2::nat) < NUM_PHILOSOPHERS \<and>
   w_pcs (w_run w_init [Go 0, Go 0, Go 0, Go 0, Go 0, Go 0, Go 0,
                        Go 2, Go 2, Go 2, Go 2, Go 2, Go 2, Go 2]) ! 0 = W_Eat \<and>
   w_pcs (w_run w_init [Go 0, Go 0, Go 0, Go 0, Go 0, Go 0, Go 0,
                        Go 2, Go 2, Go 2, Go 2, Go 2, Go 2, Go 2]) ! 2 = W_Eat \<and>
   (0::nat) \<noteq> (2 + 1) mod NUM_PHILOSOPHERS \<and> (2::nat) \<noteq> (0 + 1) mod NUM_PHILOSOPHERS \<and>
   chopstick_available (w_run w_init [Go 0, Go 0, Go 0, Go 0, Go 0, Go 0, Go 0,
                        Go 2, Go 2, Go 2, Go 2, Go 2, Go 2, Go 2])
     = [False, False, False, False, True]"
proof -
  have h: "(0::nat) < NUM_PHILOSOPHERS" "(2::nat) < NUM_PHILOSOPHERS"
    by (simp_all add: NUM_PHILOSOPHERS_def)
  have p: "w_pcs (w_run w_init [Go 0, Go 0, Go 0, Go 0, Go 0, Go 0, Go 0,
                        Go 2, Go 2, Go 2, Go 2, Go 2, Go 2, Go 2]) ! 0 = W_Eat"
    "w_pcs (w_run w_init [Go 0, Go 0, Go 0, Go 0, Go 0, Go 0, Go 0,
                        Go 2, Go 2, Go 2, Go 2, Go 2, Go 2, Go 2]) ! 2 = W_Eat"
    by (simp_all add: w_eval)
  have q: "chopstick_available (w_run w_init [Go 0, Go 0, Go 0, Go 0, Go 0, Go 0, Go 0,
                        Go 2, Go 2, Go 2, Go 2, Go 2, Go 2, Go 2])
     = [False, False, False, False, True]"
    by code_simp
  have n: "(0::nat) \<noteq> 2" by simp
  have "(0::nat) \<noteq> (2 + 1) mod NUM_PHILOSOPHERS \<and> (2::nat) \<noteq> (0 + 1) mod NUM_PHILOSOPHERS"
    using w_single_owner [OF h, of "[Go 0, Go 0, Go 0, Go 0, Go 0, Go 0, Go 0,
                        Go 2, Go 2, Go 2, Go 2, Go 2, Go 2, Go 2]"] p(1,2) n
    by blast
  then show ?thesis using h p q by (simp only: simp_thms)
qed

section \<open>Solution 1: the admission semaphore (class DiningPhilosophersSemaphore)\<close>

text \<open>
  The program counter names the next statement of \<^verbatim>\<open>philosopher\<close> (lines 25 to 71):
  the loop head of line 30, the thinking delay, \<^verbatim>\<open>dining_semaphore.acquire()\<close> of
  line 39, the two locks of lines 48 and 51, the eating delay of line 56, the two unlocks of
  lines 59 and 60, \<^verbatim>\<open>dining_semaphore.release()\<close> of line 64 (followed by the break and
  \<^verbatim>\<open>++meal\<close>, which touch nothing shared), and the end of the function.
\<close>

datatype s_pc =
  S_LoopHead | S_Think | S_Acquire | S_LockLeft | S_LockRight | S_Eat
  | S_UnlockRight | S_UnlockLeft | S_Release | S_Done

datatype s_event =
  SE_Token nat | SE_Lock nat nat | SE_Consume nat | SE_Unlock nat nat | SE_Return nat

record s_state =
  s_chopsticks :: "bool list"
  dining_semaphore :: nat
  s_pcs :: "s_pc list"
  s_meal :: "nat list"
  s_log :: "s_event list"

definition s_right :: "nat \<Rightarrow> nat" where
  "s_right i = (i + 1) mod NUM_PHILOSOPHERS"

definition s_goto :: "nat \<Rightarrow> s_pc \<Rightarrow> s_state \<Rightarrow> s_state" where
  "s_goto i p s = s\<lparr>s_pcs := (s_pcs s)[i := p]\<rparr>"

definition s_emit :: "s_event \<Rightarrow> s_state \<Rightarrow> s_state" where
  "s_emit e s = s\<lparr>s_log := s_log s @ [e]\<rparr>"

text \<open>
  One step of thread \<open>i\<close>; \<open>None\<close> when it is blocked (no token left, or the mutex is
  locked) or has finished. \<^verbatim>\<open>left_chopstick\<close> is \<open>i\<close>, \<^verbatim>\<open>right_chopstick\<close> is
  \<open>s_right i\<close> (lines 42 and 43).
\<close>

fun s_exec :: "s_pc \<Rightarrow> nat \<Rightarrow> s_state \<Rightarrow> s_state option" where
  "s_exec S_LoopHead i s =
     (if s_meal s ! i < 3 then Some (s_goto i S_Think s) else Some (s_goto i S_Done s))"
| "s_exec S_Think i s = Some (s_goto i S_Acquire s)"
| "s_exec S_Acquire i s =
     (if dining_semaphore s = 0 then None
      else Some (s_goto i S_LockLeft (s_emit (SE_Token i)
                  (s\<lparr>dining_semaphore := dining_semaphore s - 1\<rparr>))))"
| "s_exec S_LockLeft i s =
     (if s_chopsticks s ! i then None
      else Some (s_goto i S_LockRight (s_emit (SE_Lock i i)
                  (s\<lparr>s_chopsticks := (s_chopsticks s)[i := True]\<rparr>))))"
| "s_exec S_LockRight i s =
     (if s_chopsticks s ! s_right i then None
      else Some (s_goto i S_Eat (s_emit (SE_Lock i (s_right i))
                  (s\<lparr>s_chopsticks := (s_chopsticks s)[s_right i := True]\<rparr>))))"
| "s_exec S_Eat i s = Some (s_goto i S_UnlockRight (s_emit (SE_Consume i) s))"
| "s_exec S_UnlockRight i s =
     Some (s_goto i S_UnlockLeft (s_emit (SE_Unlock i (s_right i))
            (s\<lparr>s_chopsticks := (s_chopsticks s)[s_right i := False]\<rparr>)))"
| "s_exec S_UnlockLeft i s =
     Some (s_goto i S_Release (s_emit (SE_Unlock i i)
            (s\<lparr>s_chopsticks := (s_chopsticks s)[i := False]\<rparr>)))"
| "s_exec S_Release i s =
     Some (s_goto i S_LoopHead (s_emit (SE_Return i)
            (s\<lparr>dining_semaphore := dining_semaphore s + 1,
               s_meal := (s_meal s)[i := s_meal s ! i + 1]\<rparr>)))"
| "s_exec S_Done i s = None"

definition s_step :: "s_state \<Rightarrow> nat \<Rightarrow> s_state option" where
  "s_step s i = (if i < NUM_PHILOSOPHERS then s_exec (s_pcs s ! i) i s else None)"

fun s_run :: "s_state \<Rightarrow> nat list \<Rightarrow> s_state" where
  "s_run s [] = s"
| "s_run s (i # is) = (case s_step s i of None \<Rightarrow> s_run s is | Some s' \<Rightarrow> s_run s' is)"

text \<open>
  Lines 94 to 96: five free mutexes and a semaphore that starts with
  \<^verbatim>\<open>NUM_PHILOSOPHERS - 1\<close> tokens.
\<close>

definition s_init :: s_state where
  "s_init = \<lparr>s_chopsticks = replicate NUM_PHILOSOPHERS False,
             dining_semaphore = NUM_PHILOSOPHERS - 1,
             s_pcs = replicate NUM_PHILOSOPHERS S_LoopHead,
             s_meal = replicate NUM_PHILOSOPHERS 0,
             s_log = []\<rparr>"

text \<open>
  A thread is admitted from the acquisition of its token to the release: it holds a
  chopstick or is about to lock or unlock one, or is about to give the token back.
\<close>

fun s_admitted :: "s_pc \<Rightarrow> bool" where
  "s_admitted S_LockLeft = True"
| "s_admitted S_LockRight = True"
| "s_admitted S_Eat = True"
| "s_admitted S_UnlockRight = True"
| "s_admitted S_UnlockLeft = True"
| "s_admitted S_Release = True"
| "s_admitted p = False"

text \<open>Threads that have eaten in the current cycle and not yet counted the meal.\<close>

fun s_ate :: "s_pc \<Rightarrow> bool" where
  "s_ate S_UnlockRight = True"
| "s_ate S_UnlockLeft = True"
| "s_ate S_Release = True"
| "s_ate p = False"

fun s_is_consume :: "s_event \<Rightarrow> bool" where
  "s_is_consume (SE_Consume i) = True"
| "s_is_consume e = False"

fun s_meal_ok :: "s_pc \<Rightarrow> nat \<Rightarrow> bool" where
  "s_meal_ok S_LoopHead m = (m \<le> 3)"
| "s_meal_ok S_Done m = (m = 3)"
| "s_meal_ok p m = (m < 3)"

definition s_inv :: "s_state \<Rightarrow> bool" where
  "s_inv s \<longleftrightarrow>
     length (s_pcs s) = NUM_PHILOSOPHERS \<and>
     length (s_meal s) = NUM_PHILOSOPHERS \<and>
     length (s_chopsticks s) = NUM_PHILOSOPHERS \<and>
     dining_semaphore s + length (filter s_admitted (s_pcs s)) = NUM_PHILOSOPHERS - 1 \<and>
     length (filter s_is_consume (s_log s))
       = sum_list (s_meal s) + length (filter s_ate (s_pcs s)) \<and>
     (\<forall>i < NUM_PHILOSOPHERS. s_meal_ok (s_pcs s ! i) (s_meal s ! i))"

lemma filter_update_length:
  "i < length xs \<Longrightarrow>
     length (filter P (xs[i := v])) + (if P (xs ! i) then 1 else 0)
       = length (filter P xs) + (if P v then 1 else 0)"
proof (induction xs arbitrary: i)
  case Nil
  then show ?case by simp
next
  case (Cons x xs)
  then show ?case by (cases i) auto
qed

lemma sum_list_bump: "i < length xs \<Longrightarrow> sum_list (xs[i := xs ! i + 1]) = sum_list xs + (1::nat)"
proof (induction xs arbitrary: i)
  case Nil
  then show ?case by simp
next
  case (Cons x xs)
  then show ?case by (cases i) auto
qed

lemma s_inv_init: "s_inv s_init"
  by (simp add: s_inv_def s_init_def)

lemma s_exec_inv:
  assumes inv: "s_inv s" and i: "i < NUM_PHILOSOPHERS"
    and ex: "s_exec (s_pcs s ! i) i s = Some s'"
  shows "s_inv s'"
proof -
  have len: "i < length (s_pcs s)" "i < length (s_meal s)"
    using inv i by (simp_all add: s_inv_def)
  have ok: "s_meal_ok (s_pcs s ! i) (s_meal s ! i)"
    using inv i by (simp add: s_inv_def)
  note f = filter_update_length [OF len(1), of s_admitted] filter_update_length [OF len(1), of s_ate]
    sum_list_bump [OF len(2)]
  have rest: "\<And>p m. s_meal_ok p m \<Longrightarrow> \<forall>j < NUM_PHILOSOPHERS.
        s_meal_ok ((s_pcs s)[i := p] ! j) ((s_meal s)[i := m] ! j)"
    using inv len by (auto simp: s_inv_def nth_list_update)
  have rest': "\<And>p. s_meal_ok p (s_meal s ! i) \<Longrightarrow> \<forall>j < NUM_PHILOSOPHERS.
        s_meal_ok ((s_pcs s)[i := p] ! j) (s_meal s ! j)"
    using inv len by (auto simp: s_inv_def nth_list_update)
  show ?thesis
  proof (cases "s_pcs s ! i")
    case S_LoopHead
    then show ?thesis
      using ex inv ok f(1,2) [of S_Think] f(1,2) [of S_Done] rest' [of S_Think] rest' [of S_Done]
      by (auto simp: s_inv_def s_goto_def split: if_splits)
  next
    case S_Think
    then show ?thesis
      using ex inv ok f(1,2) [of S_Acquire] rest' [of S_Acquire]
      by (auto simp: s_inv_def s_goto_def)
  next
    case S_Acquire
    then show ?thesis
      using ex inv ok f(1,2) [of S_LockLeft] rest' [of S_LockLeft]
      by (auto simp: s_inv_def s_goto_def s_emit_def split: if_splits)
  next
    case S_LockLeft
    then show ?thesis
      using ex inv ok f(1,2) [of S_LockRight] rest' [of S_LockRight]
      by (auto simp: s_inv_def s_goto_def s_emit_def split: if_splits)
  next
    case S_LockRight
    then show ?thesis
      using ex inv ok f(1,2) [of S_Eat] rest' [of S_Eat]
      by (auto simp: s_inv_def s_goto_def s_emit_def split: if_splits)
  next
    case S_Eat
    then show ?thesis
      using ex inv ok f(1,2) [of S_UnlockRight] rest' [of S_UnlockRight]
      by (auto simp: s_inv_def s_goto_def s_emit_def)
  next
    case S_UnlockRight
    then show ?thesis
      using ex inv ok f(1,2) [of S_UnlockLeft] rest' [of S_UnlockLeft]
      by (auto simp: s_inv_def s_goto_def s_emit_def)
  next
    case S_UnlockLeft
    then show ?thesis
      using ex inv ok f(1,2) [of S_Release] rest' [of S_Release]
      by (auto simp: s_inv_def s_goto_def s_emit_def)
  next
    case S_Release
    then show ?thesis
      using ex inv ok f(1,2) [of S_LoopHead] f(3) rest [of S_LoopHead "s_meal s ! i + 1"]
      by (auto simp: s_inv_def s_goto_def s_emit_def)
  next
    case S_Done
    then show ?thesis using ex by simp
  qed
qed

lemma s_step_inv: "s_inv s \<Longrightarrow> s_step s i = Some s' \<Longrightarrow> s_inv s'"
  by (auto simp: s_step_def intro: s_exec_inv split: if_splits)

lemma s_run_inv: "s_inv s \<Longrightarrow> s_inv (s_run s is)"
  by (induction "is" arbitrary: s) (auto split: option.splits dest: s_step_inv)

lemma s_reach_inv: "s_inv (s_run s_init is)"
  by (rule s_run_inv [OF s_inv_init])

subsection \<open>Who holds which chopstick\<close>

fun s_owns :: "s_pc \<Rightarrow> nat \<Rightarrow> nat \<Rightarrow> bool" where
  "s_owns S_LockRight i c = (c = i)"
| "s_owns S_Eat i c = (c = i \<or> c = s_right i)"
| "s_owns S_UnlockRight i c = (c = i \<or> c = s_right i)"
| "s_owns S_UnlockLeft i c = (c = i)"
| "s_owns p i c = False"

definition s_own_ok :: "bool list \<Rightarrow> s_pc list \<Rightarrow> bool" where
  "s_own_ok cs ps \<longleftrightarrow>
     (\<forall>c < NUM_PHILOSOPHERS. cs ! c = (\<exists>i < NUM_PHILOSOPHERS. s_owns (ps ! i) i c)) \<and>
     (\<forall>i < NUM_PHILOSOPHERS. \<forall>j < NUM_PHILOSOPHERS. \<forall>c.
        s_owns (ps ! i) i c \<and> s_owns (ps ! j) j c \<longrightarrow> i = j)"

lemma s_right_less: "s_right i < NUM_PHILOSOPHERS"
  by (simp add: s_right_def NUM_PHILOSOPHERS_def)

lemma s_right_neq: "i < NUM_PHILOSOPHERS \<Longrightarrow> s_right i \<noteq> i"
  by (auto simp: s_right_def NUM_PHILOSOPHERS_def mod_Suc)

lemma s_own_stay:
  assumes ok: "s_own_ok cs ps" and len: "length ps = NUM_PHILOSOPHERS"
    and i: "i < NUM_PHILOSOPHERS"
    and own: "\<forall>c. s_owns p' i c = s_owns (ps ! i) i c"
  shows "s_own_ok cs (ps[i := p'])"
proof -
  have "\<And>j c. j < NUM_PHILOSOPHERS \<Longrightarrow> s_owns (ps[i := p'] ! j) j c = s_owns (ps ! j) j c"
    using own len i by (auto simp: nth_list_update)
  then show ?thesis using ok by (simp add: s_own_ok_def cong: conj_cong)
qed

lemma s_own_lock:
  assumes ok: "s_own_ok cs ps" and len: "length ps = NUM_PHILOSOPHERS" "length cs = NUM_PHILOSOPHERS"
    and i: "i < NUM_PHILOSOPHERS" and c0: "c0 < NUM_PHILOSOPHERS"
    and free: "\<not> cs ! c0"
    and own: "\<forall>c. s_owns p' i c = (s_owns (ps ! i) i c \<or> c = c0)"
  shows "s_own_ok (cs[c0 := True]) (ps[i := p'])"
proof -
  let ?ps = "ps[i := p']"
  have C: "\<forall>c < NUM_PHILOSOPHERS. cs ! c = (\<exists>j < NUM_PHILOSOPHERS. s_owns (ps ! j) j c)"
    and D: "\<forall>j < NUM_PHILOSOPHERS. \<forall>k < NUM_PHILOSOPHERS. \<forall>c.
        s_owns (ps ! j) j c \<and> s_owns (ps ! k) k c \<longrightarrow> j = k"
    using ok by (simp_all add: s_own_ok_def)
  have noown: "\<forall>j < NUM_PHILOSOPHERS. \<not> s_owns (ps ! j) j c0"
    using C c0 free by blast
  have ownj: "\<And>j c. j < NUM_PHILOSOPHERS \<Longrightarrow>
        s_owns (?ps ! j) j c = (s_owns (ps ! j) j c \<or> (j = i \<and> c = c0))"
    using own len i by (auto simp: nth_list_update)
  have C': "\<forall>c < NUM_PHILOSOPHERS.
        cs[c0 := True] ! c = (\<exists>j < NUM_PHILOSOPHERS. s_owns (?ps ! j) j c)"
  proof (intro allI impI)
    fix c assume c: "c < NUM_PHILOSOPHERS"
    show "cs[c0 := True] ! c = (\<exists>j < NUM_PHILOSOPHERS. s_owns (?ps ! j) j c)"
    proof (cases "c = c0")
      case True
      then show ?thesis using ownj [OF i, of c0] i c len by auto
    next
      case False
      then show ?thesis using C c ownj len by (simp cong: conj_cong)
    qed
  qed
  have D': "\<forall>j < NUM_PHILOSOPHERS. \<forall>k < NUM_PHILOSOPHERS. \<forall>c.
        s_owns (?ps ! j) j c \<and> s_owns (?ps ! k) k c \<longrightarrow> j = k"
  proof (intro allI impI)
    fix j k c
    assume j: "j < NUM_PHILOSOPHERS" and k: "k < NUM_PHILOSOPHERS"
      and o: "s_owns (?ps ! j) j c \<and> s_owns (?ps ! k) k c"
    show "j = k"
    proof (cases "c = c0")
      case True
      then show ?thesis using o ownj [OF j, of c] ownj [OF k, of c] noown j k by auto
    next
      case False
      then show ?thesis using o ownj [OF j, of c] ownj [OF k, of c] D j k by auto
    qed
  qed
  show ?thesis unfolding s_own_ok_def using C' D' by simp
qed

lemma s_own_unlock:
  assumes ok: "s_own_ok cs ps" and len: "length ps = NUM_PHILOSOPHERS" "length cs = NUM_PHILOSOPHERS"
    and i: "i < NUM_PHILOSOPHERS" and c0: "c0 < NUM_PHILOSOPHERS"
    and mine: "s_owns (ps ! i) i c0"
    and own: "\<forall>c. s_owns p' i c = (s_owns (ps ! i) i c \<and> c \<noteq> c0)"
  shows "s_own_ok (cs[c0 := False]) (ps[i := p'])"
proof -
  let ?ps = "ps[i := p']"
  have C: "\<forall>c < NUM_PHILOSOPHERS. cs ! c = (\<exists>j < NUM_PHILOSOPHERS. s_owns (ps ! j) j c)"
    and D: "\<forall>j < NUM_PHILOSOPHERS. \<forall>k < NUM_PHILOSOPHERS. \<forall>c.
        s_owns (ps ! j) j c \<and> s_owns (ps ! k) k c \<longrightarrow> j = k"
    using ok by (simp_all add: s_own_ok_def)
  have only: "\<forall>j < NUM_PHILOSOPHERS. s_owns (ps ! j) j c0 \<longrightarrow> j = i"
    using D mine i by blast
  have ownj: "\<And>j c. j < NUM_PHILOSOPHERS \<Longrightarrow>
        s_owns (?ps ! j) j c = (s_owns (ps ! j) j c \<and> \<not> (j = i \<and> c = c0))"
    using own len i by (auto simp: nth_list_update)
  have C': "\<forall>c < NUM_PHILOSOPHERS.
        cs[c0 := False] ! c = (\<exists>j < NUM_PHILOSOPHERS. s_owns (?ps ! j) j c)"
  proof (intro allI impI)
    fix c assume c: "c < NUM_PHILOSOPHERS"
    show "cs[c0 := False] ! c = (\<exists>j < NUM_PHILOSOPHERS. s_owns (?ps ! j) j c)"
    proof (cases "c = c0")
      case True
      then show ?thesis using ownj only c len by auto
    next
      case False
      then show ?thesis using C c ownj len by (simp cong: conj_cong)
    qed
  qed
  have D': "\<forall>j < NUM_PHILOSOPHERS. \<forall>k < NUM_PHILOSOPHERS. \<forall>c.
        s_owns (?ps ! j) j c \<and> s_owns (?ps ! k) k c \<longrightarrow> j = k"
    using D ownj by blast
  show ?thesis unfolding s_own_ok_def using C' D' by simp
qed

lemma s_exec_own:
  assumes inv: "s_inv s" and ok: "s_own_ok (s_chopsticks s) (s_pcs s)"
    and i: "i < NUM_PHILOSOPHERS" and ex: "s_exec (s_pcs s ! i) i s = Some s'"
  shows "s_own_ok (s_chopsticks s') (s_pcs s')"
proof -
  have len: "length (s_pcs s) = NUM_PHILOSOPHERS" "length (s_chopsticks s) = NUM_PHILOSOPHERS"
    using inv by (simp_all add: s_inv_def)
  have r: "s_right i < NUM_PHILOSOPHERS" "s_right i \<noteq> i"
    using i by (simp_all add: s_right_less s_right_neq)
  note stay = s_own_stay [OF ok len(1) i]
  note lock = s_own_lock [OF ok len i]
  note unlock = s_own_unlock [OF ok len i]
  show ?thesis
  proof (cases "s_pcs s ! i")
    case S_LoopHead
    then show ?thesis using ex stay [of S_Think] stay [of S_Done]
      by (auto simp: s_goto_def split: if_splits)
  next
    case S_Think
    then show ?thesis using ex stay [of S_Acquire] by (auto simp: s_goto_def)
  next
    case S_Acquire
    then show ?thesis using ex stay [of S_LockLeft]
      by (auto simp: s_goto_def s_emit_def split: if_splits)
  next
    case S_LockLeft
    then show ?thesis using ex lock [OF i, of S_LockRight]
      by (auto simp: s_goto_def s_emit_def split: if_splits)
  next
    case S_LockRight
    then show ?thesis using ex lock [OF r(1), of S_Eat]
      by (auto simp: s_goto_def s_emit_def split: if_splits)
  next
    case S_Eat
    then show ?thesis using ex stay [of S_UnlockRight] by (auto simp: s_goto_def s_emit_def)
  next
    case S_UnlockRight
    have "\<forall>c. s_owns S_UnlockLeft i c = (s_owns (s_pcs s ! i) i c \<and> c \<noteq> s_right i)"
      using S_UnlockRight r by auto
    then have "s_own_ok ((s_chopsticks s)[s_right i := False]) ((s_pcs s)[i := S_UnlockLeft])"
      using S_UnlockRight by (intro unlock [OF r(1)]) auto
    then show ?thesis using ex S_UnlockRight by (auto simp: s_goto_def s_emit_def)
  next
    case S_UnlockLeft
    then show ?thesis using ex unlock [OF i, of S_Release]
      by (auto simp: s_goto_def s_emit_def)
  next
    case S_Release
    then show ?thesis using ex stay [of S_LoopHead] by (auto simp: s_goto_def s_emit_def)
  next
    case S_Done
    then show ?thesis using ex by simp
  qed
qed

lemma s_run_own:
  "s_inv s \<Longrightarrow> s_own_ok (s_chopsticks s) (s_pcs s) \<Longrightarrow>
     s_own_ok (s_chopsticks (s_run s is)) (s_pcs (s_run s is))"
proof (induction "is" arbitrary: s)
  case Nil
  then show ?case by simp
next
  case (Cons i "is")
  show ?case
  proof (cases "s_step s i")
    case None
    then show ?thesis using Cons by simp
  next
    case (Some s')
    then have e: "i < NUM_PHILOSOPHERS" "s_exec (s_pcs s ! i) i s = Some s'"
      by (auto simp: s_step_def split: if_splits)
    have "s_inv s'" using Cons.prems(1) Some by (rule s_step_inv)
    moreover have "s_own_ok (s_chopsticks s') (s_pcs s')"
      using Cons.prems e by (rule s_exec_own)
    ultimately show ?thesis using Cons.IH [of s'] Some by simp
  qed
qed

lemma s_own_init: "s_own_ok (s_chopsticks s_init) (s_pcs s_init)"
  by (simp add: s_own_ok_def s_init_def)

lemma s_reach_own: "s_own_ok (s_chopsticks (s_run s_init is)) (s_pcs (s_run s_init is))"
  by (rule s_run_own [OF s_inv_init s_own_init])

subsection \<open>No deadlock\<close>

lemma s_ring_closed:
  assumes i: "i < NUM_PHILOSOPHERS" and Pi: "P i"
    and step: "\<forall>k < NUM_PHILOSOPHERS. P k \<longrightarrow> P (s_right k)"
    and j: "j < NUM_PHILOSOPHERS"
  shows "P j"
proof -
  have *: "P ((i + n) mod NUM_PHILOSOPHERS)" for n
  proof (induction n)
    case 0
    then show ?case using i Pi by simp
  next
    case (Suc n)
    have "(i + n) mod NUM_PHILOSOPHERS < NUM_PHILOSOPHERS"
      using i by simp
    then have "P (s_right ((i + n) mod NUM_PHILOSOPHERS))"
      using step Suc by blast
    moreover have "s_right ((i + n) mod NUM_PHILOSOPHERS) = (i + Suc n) mod NUM_PHILOSOPHERS"
      by (simp add: s_right_def mod_Suc_eq)
    ultimately show ?case by simp
  qed
  have "(i + (j + NUM_PHILOSOPHERS - i)) mod NUM_PHILOSOPHERS = j"
    using i j by simp
  then show ?thesis using * [of "j + NUM_PHILOSOPHERS - i"] by simp
qed

lemma s_blocked:
  assumes "s_exec p i s = None"
  shows "p = S_Done \<or> p = S_Acquire \<and> dining_semaphore s = 0 \<or>
         p = S_LockLeft \<and> s_chopsticks s ! i \<or>
         p = S_LockRight \<and> s_chopsticks s ! s_right i"
  using assms by (cases p) (simp_all split: if_splits)

lemma s_no_deadlock:
  assumes inv: "s_inv s" and own: "s_own_ok (s_chopsticks s) (s_pcs s)"
    and stuck: "\<forall>i < NUM_PHILOSOPHERS. s_step s i = None"
  shows "\<forall>i < NUM_PHILOSOPHERS. s_pcs s ! i = S_Done"
proof -
  have len: "length (s_pcs s) = NUM_PHILOSOPHERS"
    and tok: "dining_semaphore s + length (filter s_admitted (s_pcs s)) = NUM_PHILOSOPHERS - 1"
    using inv by (simp_all add: s_inv_def)
  have C: "\<forall>c < NUM_PHILOSOPHERS.
        s_chopsticks s ! c = (\<exists>k < NUM_PHILOSOPHERS. s_owns (s_pcs s ! k) k c)"
    using own by (simp add: s_own_ok_def)
  have blocked: "(s_pcs s ! i = S_Done \<or>
                  s_pcs s ! i = S_Acquire \<and> dining_semaphore s = 0 \<or>
                  s_pcs s ! i = S_LockLeft \<and> s_chopsticks s ! i \<or>
                  s_pcs s ! i = S_LockRight \<and> s_chopsticks s ! s_right i)"
    if "i < NUM_PHILOSOPHERS" for i
  proof -
    have "s_exec (s_pcs s ! i) i s = None"
      using stuck that by (simp add: s_step_def)
    then show ?thesis by (rule s_blocked)
  qed
  have owner: "k = c \<and> s_pcs s ! k = S_LockRight"
    if "k < NUM_PHILOSOPHERS" "s_owns (s_pcs s ! k) k c" for k c
    using blocked [OF that(1)] that(2) by auto
  have noLL: "s_pcs s ! i \<noteq> S_LockLeft" if i: "i < NUM_PHILOSOPHERS" for i
  proof
    assume p: "s_pcs s ! i = S_LockLeft"
    then have "s_chopsticks s ! i" using blocked [OF i] by simp
    then obtain k where "k < NUM_PHILOSOPHERS" "s_owns (s_pcs s ! k) k i"
      using C i by blast
    then have "s_pcs s ! i = S_LockRight" using owner by blast
    then show False using p by simp
  qed
  have succ: "\<forall>i < NUM_PHILOSOPHERS. s_pcs s ! i = S_LockRight \<longrightarrow>
                s_pcs s ! s_right i = S_LockRight"
  proof (intro allI impI)
    fix i assume i: "i < NUM_PHILOSOPHERS" and p: "s_pcs s ! i = S_LockRight"
    then have "s_chopsticks s ! s_right i" using blocked [OF i] by simp
    then obtain k where "k < NUM_PHILOSOPHERS" "s_owns (s_pcs s ! k) k (s_right i)"
      using C s_right_less by blast
    then show "s_pcs s ! s_right i = S_LockRight" using owner by blast
  qed
  have noLR: "s_pcs s ! i \<noteq> S_LockRight" if "i < NUM_PHILOSOPHERS" for i
  proof
    assume p: "s_pcs s ! i = S_LockRight"
    have "\<forall>j < NUM_PHILOSOPHERS. s_pcs s ! j = S_LockRight"
      using s_ring_closed [OF that, of "\<lambda>k. s_pcs s ! k = S_LockRight"] p succ by blast
    then have "\<forall>x \<in> set (s_pcs s). s_admitted x"
      using len by (auto simp: in_set_conv_nth)
    then have "filter s_admitted (s_pcs s) = s_pcs s" by simp
    then show False using tok len by (simp add: NUM_PHILOSOPHERS_def)
  qed
  have "\<forall>x \<in> set (s_pcs s). \<not> s_admitted x"
  proof
    fix x assume "x \<in> set (s_pcs s)"
    then obtain j where j: "j < NUM_PHILOSOPHERS" "x = s_pcs s ! j"
      using len by (auto simp: in_set_conv_nth)
    then show "\<not> s_admitted x" using blocked [OF j(1)] noLL [OF j(1)] noLR [OF j(1)] by auto
  qed
  then have "filter s_admitted (s_pcs s) = []" by simp
  then have sem: "dining_semaphore s \<noteq> 0" using tok by (simp add: NUM_PHILOSOPHERS_def)
  show ?thesis
  proof (intro allI impI)
    fix i assume i: "i < NUM_PHILOSOPHERS"
    show "s_pcs s ! i = S_Done"
      using blocked [OF i] noLL [OF i] noLR [OF i] sem by simp
  qed
qed

lemmas s_eval = s_init_def NUM_PHILOSOPHERS_def s_goto_def s_emit_def s_right_def s_step_def

text \<open>
  C1. In every state of every run of the Bounded-Concurrency strategy: the tokens left in
  the semaphore and the admitted threads add up to \<open>NUM_PHILOSOPHERS - 1\<close>, so at most
  \<open>NUM_PHILOSOPHERS - 1\<close> threads are admitted; a thread that holds a chopstick is
  admitted; the five threads never all hold their left chopstick while waiting
  for the right one; and unless every thread has finished, some thread can take a step.
\<close>

theorem s_admission_bounds_contention:
  "length (filter s_admitted (s_pcs (s_run s_init is))) \<le> NUM_PHILOSOPHERS - 1 \<and>
   dining_semaphore (s_run s_init is) + length (filter s_admitted (s_pcs (s_run s_init is)))
     = NUM_PHILOSOPHERS - 1 \<and>
   (\<forall>i < NUM_PHILOSOPHERS. \<forall>c. s_owns (s_pcs (s_run s_init is) ! i) i c \<longrightarrow>
      s_admitted (s_pcs (s_run s_init is) ! i)) \<and>
   \<not> (\<forall>i < NUM_PHILOSOPHERS. s_pcs (s_run s_init is) ! i = S_LockRight) \<and>
   ((\<exists>i < NUM_PHILOSOPHERS. s_pcs (s_run s_init is) ! i \<noteq> S_Done) \<longrightarrow>
      (\<exists>i < NUM_PHILOSOPHERS. s_step (s_run s_init is) i \<noteq> None))"
proof -
  let ?s = "s_run s_init is"
  have inv: "s_inv ?s" by (rule s_reach_inv)
  have own: "s_own_ok (s_chopsticks ?s) (s_pcs ?s)" by (rule s_reach_own)
  have len: "length (s_pcs ?s) = NUM_PHILOSOPHERS"
    and tok: "dining_semaphore ?s + length (filter s_admitted (s_pcs ?s)) = NUM_PHILOSOPHERS - 1"
    using inv by (simp_all add: s_inv_def)
  have 1: "length (filter s_admitted (s_pcs ?s)) \<le> NUM_PHILOSOPHERS - 1"
    using tok by simp
  have 3: "\<forall>i < NUM_PHILOSOPHERS. \<forall>c. s_owns (s_pcs ?s ! i) i c \<longrightarrow> s_admitted (s_pcs ?s ! i)"
  proof (intro allI impI)
    fix i c assume "s_owns (s_pcs ?s ! i) i c"
    then show "s_admitted (s_pcs ?s ! i)" by (cases "s_pcs ?s ! i") auto
  qed
  have 4: "\<not> (\<forall>i < NUM_PHILOSOPHERS. s_pcs ?s ! i = S_LockRight)"
  proof
    assume "\<forall>i < NUM_PHILOSOPHERS. s_pcs ?s ! i = S_LockRight"
    then have "\<forall>x \<in> set (s_pcs ?s). s_admitted x"
      using len by (auto simp: in_set_conv_nth)
    then have "filter s_admitted (s_pcs ?s) = s_pcs ?s" by simp
    then show False using tok len by (simp add: NUM_PHILOSOPHERS_def)
  qed
  have 5: "(\<exists>i < NUM_PHILOSOPHERS. s_pcs ?s ! i \<noteq> S_Done) \<longrightarrow>
      (\<exists>i < NUM_PHILOSOPHERS. s_step ?s i \<noteq> None)"
    using s_no_deadlock [OF inv own] by blast
  show ?thesis using 1 tok 3 4 5 by blast
qed

theorem s_admission_bounds_contention_witness:
  "s_pcs (s_run s_init [0, 0, 0, 0, 1, 1, 1, 1, 2, 2, 2, 2, 3, 3, 3, 3, 4, 4, 4])
     = [S_LockRight, S_LockRight, S_LockRight, S_LockRight, S_Acquire] \<and>
   length (filter s_admitted
     (s_pcs (s_run s_init [0, 0, 0, 0, 1, 1, 1, 1, 2, 2, 2, 2, 3, 3, 3, 3, 4, 4, 4]))) = 4 \<and>
   dining_semaphore (s_run s_init [0, 0, 0, 0, 1, 1, 1, 1, 2, 2, 2, 2, 3, 3, 3, 3, 4, 4, 4]) = 0 \<and>
   s_step (s_run s_init [0, 0, 0, 0, 1, 1, 1, 1, 2, 2, 2, 2, 3, 3, 3, 3, 4, 4, 4]) 4 = None \<and>
   s_step (s_run s_init [0, 0, 0, 0, 1, 1, 1, 1, 2, 2, 2, 2, 3, 3, 3, 3, 4, 4, 4]) 0 = None \<and>
   s_step (s_run s_init [0, 0, 0, 0, 1, 1, 1, 1, 2, 2, 2, 2, 3, 3, 3, 3, 4, 4, 4]) 3 \<noteq> None"
proof -
  have p: "s_pcs (s_run s_init [0, 0, 0, 0, 1, 1, 1, 1, 2, 2, 2, 2, 3, 3, 3, 3, 4, 4, 4])
     = [S_LockRight, S_LockRight, S_LockRight, S_LockRight, S_Acquire]"
    by code_simp
  have c: "length (filter s_admitted
     (s_pcs (s_run s_init [0, 0, 0, 0, 1, 1, 1, 1, 2, 2, 2, 2, 3, 3, 3, 3, 4, 4, 4]))) = 4"
    unfolding p by simp
  have d: "dining_semaphore
      (s_run s_init [0, 0, 0, 0, 1, 1, 1, 1, 2, 2, 2, 2, 3, 3, 3, 3, 4, 4, 4]) = 0"
    using s_admission_bounds_contention
            [of "[0, 0, 0, 0, 1, 1, 1, 1, 2, 2, 2, 2, 3, 3, 3, 3, 4, 4, 4]"] c
    by (simp add: NUM_PHILOSOPHERS_def)
  have e: "s_step (s_run s_init [0, 0, 0, 0, 1, 1, 1, 1, 2, 2, 2, 2, 3, 3, 3, 3, 4, 4, 4]) 4 = None"
    "s_step (s_run s_init [0, 0, 0, 0, 1, 1, 1, 1, 2, 2, 2, 2, 3, 3, 3, 3, 4, 4, 4]) 0 = None"
    "s_step (s_run s_init [0, 0, 0, 0, 1, 1, 1, 1, 2, 2, 2, 2, 3, 3, 3, 3, 4, 4, 4]) 3 \<noteq> None"
    by code_simp+
  show ?thesis using p c d e by (simp only: simp_thms)
qed

subsection \<open>The order of the steps of a cycle\<close>

fun s_actor :: "s_event \<Rightarrow> nat" where
  "s_actor (SE_Token i) = i"
| "s_actor (SE_Lock i c) = i"
| "s_actor (SE_Consume i) = i"
| "s_actor (SE_Unlock i c) = i"
| "s_actor (SE_Return i) = i"

definition s_proj :: "nat \<Rightarrow> s_event list \<Rightarrow> s_event list" where
  "s_proj i evs = filter (\<lambda>e. s_actor e = i) evs"

text \<open>The events of one cycle of thread \<open>i\<close>, and how many of them lie behind a thread.\<close>

definition s_cycle :: "nat \<Rightarrow> s_event list" where
  "s_cycle i = [SE_Token i, SE_Lock i i, SE_Lock i ((i + 1) mod NUM_PHILOSOPHERS), SE_Consume i,
                SE_Unlock i ((i + 1) mod NUM_PHILOSOPHERS), SE_Unlock i i, SE_Return i]"

fun s_progress :: "s_pc \<Rightarrow> nat" where
  "s_progress S_LockLeft = 1"
| "s_progress S_LockRight = 2"
| "s_progress S_Eat = 3"
| "s_progress S_UnlockRight = 4"
| "s_progress S_UnlockLeft = 5"
| "s_progress S_Release = 6"
| "s_progress p = 0"

definition s_log_ok :: "s_state \<Rightarrow> nat \<Rightarrow> bool" where
  "s_log_ok s i \<longleftrightarrow>
     s_proj i (s_log s)
       = concat (replicate (s_meal s ! i) (s_cycle i)) @ take (s_progress (s_pcs s ! i)) (s_cycle i)"

lemma s_proj_snoc:
  "s_proj i (evs @ [e]) = (if s_actor e = i then s_proj i evs @ [e] else s_proj i evs)"
  by (simp add: s_proj_def)

lemma concat_replicate_Suc_snoc: "concat (replicate (Suc n) xs) = concat (replicate n xs) @ xs"
  by (induction n) auto

lemma s_exec_log_self:
  assumes inv: "s_inv s" and ok: "s_log_ok s i" and i: "i < NUM_PHILOSOPHERS"
    and ex: "s_exec (s_pcs s ! i) i s = Some s'"
  shows "s_log_ok s' i"
proof -
  have len: "i < length (s_pcs s)" "i < length (s_meal s)"
    using inv i by (simp_all add: s_inv_def)
  show ?thesis
  proof (cases "s_pcs s ! i = S_Release")
    case True
    have s': "s_proj i (s_log s') = s_proj i (s_log s) @ [SE_Return i]"
      "s_meal s' ! i = Suc (s_meal s ! i)" "s_pcs s' ! i = S_LoopHead"
      using ex True len by (auto simp: s_goto_def s_emit_def s_proj_snoc)
    have "take 6 (s_cycle i) @ [SE_Return i] = s_cycle i"
      by (simp add: s_cycle_def)
    then show ?thesis
      using ok True unfolding s_log_ok_def s'
      by (simp add: concat_replicate_Suc_snoc del: replicate_Suc)
  next
    case False
    then show ?thesis
      using ok ex len
      by (cases "s_pcs s ! i")
         (auto simp: s_log_ok_def s_goto_def s_emit_def s_proj_snoc s_cycle_def s_right_def
               split: if_splits)
  qed
qed

lemma s_exec_frame:
  assumes "s_exec (s_pcs s ! i) i s = Some s'" "j \<noteq> i"
  shows "s_pcs s' ! j = s_pcs s ! j \<and> s_meal s' ! j = s_meal s ! j \<and>
         s_proj j (s_log s') = s_proj j (s_log s)"
  using assms
  by (cases "s_pcs s ! i") (auto simp: s_goto_def s_emit_def s_proj_snoc split: if_splits)

lemma s_step_log:
  assumes "s_inv s" "s_log_ok s j" "j < NUM_PHILOSOPHERS" "s_step s i = Some s'"
  shows "s_log_ok s' j"
proof -
  have e: "i < NUM_PHILOSOPHERS" "s_exec (s_pcs s ! i) i s = Some s'"
    using assms(4) by (auto simp: s_step_def split: if_splits)
  show ?thesis
  proof (cases "j = i")
    case True
    then show ?thesis using s_exec_log_self [OF assms(1) _ e] assms(2) by simp
  next
    case False
    then show ?thesis using s_exec_frame [OF e(2), of j] assms(2) by (simp add: s_log_ok_def)
  qed
qed

lemma s_run_log:
  "s_inv s \<Longrightarrow> s_log_ok s j \<Longrightarrow> j < NUM_PHILOSOPHERS \<Longrightarrow> s_log_ok (s_run s is) j"
proof (induction "is" arbitrary: s)
  case Nil
  then show ?case by simp
next
  case (Cons i "is")
  show ?case
  proof (cases "s_step s i")
    case None
    then show ?thesis using Cons by simp
  next
    case (Some s')
    then show ?thesis
      using Cons.IH [of s'] Cons.prems s_step_inv [of s i s'] s_step_log [of s j i s']
      by simp
  qed
qed

lemma s_log_init: "j < NUM_PHILOSOPHERS \<Longrightarrow> s_log_ok s_init j"
  by (simp add: s_log_ok_def s_init_def s_proj_def)

text \<open>
  What each event of the log does to the mutex array and the semaphore; taking a token
  from an empty semaphore, locking a locked mutex and unlocking a free one are refused.
  Replaying the log of a run from the initial values gives the mutex array and the
  semaphore of the state reached: the log records every operation on them, in the order
  of the run.
\<close>

fun s_apply :: "s_event \<Rightarrow> bool list \<times> nat \<Rightarrow> (bool list \<times> nat) option" where
  "s_apply (SE_Token i) (cs, sem) = (if sem = 0 then None else Some (cs, sem - 1))"
| "s_apply (SE_Lock i c) (cs, sem) = (if cs ! c then None else Some (cs[c := True], sem))"
| "s_apply (SE_Consume i) (cs, sem) = Some (cs, sem)"
| "s_apply (SE_Unlock i c) (cs, sem) = (if cs ! c then Some (cs[c := False], sem) else None)"
| "s_apply (SE_Return i) (cs, sem) = Some (cs, sem + 1)"

fun s_replay :: "s_event list \<Rightarrow> bool list \<times> nat \<Rightarrow> (bool list \<times> nat) option" where
  "s_replay [] d = Some d"
| "s_replay (e # evs) d = (case s_apply e d of None \<Rightarrow> None | Some d' \<Rightarrow> s_replay evs d')"

lemma s_replay_snoc:
  "s_replay (evs @ [e]) d = (case s_replay evs d of None \<Rightarrow> None | Some d' \<Rightarrow> s_apply e d')"
  by (induction evs arbitrary: d) (auto split: option.splits)

definition s_replay_ok :: "s_state \<Rightarrow> bool" where
  "s_replay_ok s \<longleftrightarrow>
     s_replay (s_log s) (replicate NUM_PHILOSOPHERS False, NUM_PHILOSOPHERS - 1)
       = Some (s_chopsticks s, dining_semaphore s)"

lemma s_own_locked:
  assumes "s_own_ok cs ps" "i < NUM_PHILOSOPHERS" "c < NUM_PHILOSOPHERS" "s_owns (ps ! i) i c"
  shows "cs ! c"
  using assms unfolding s_own_ok_def by blast

lemma s_exec_replay:
  assumes own: "s_own_ok (s_chopsticks s) (s_pcs s)" and ok: "s_replay_ok s"
    and i: "i < NUM_PHILOSOPHERS" and ex: "s_exec (s_pcs s ! i) i s = Some s'"
  shows "s_replay_ok s'"
proof (cases "s_pcs s ! i")
  case S_UnlockRight
  then have "s_chopsticks s ! s_right i"
    using s_own_locked [OF own i s_right_less, of i] by simp
  then show ?thesis using ok ex S_UnlockRight
    by (auto simp: s_replay_ok_def s_replay_snoc s_goto_def s_emit_def)
next
  case S_UnlockLeft
  then have "s_chopsticks s ! i"
    using s_own_locked [OF own i i] by simp
  then show ?thesis using ok ex S_UnlockLeft
    by (auto simp: s_replay_ok_def s_replay_snoc s_goto_def s_emit_def)
qed (use ok ex in \<open>auto simp: s_replay_ok_def s_replay_snoc s_goto_def s_emit_def
                       split: if_splits\<close>)

lemma s_run_replay:
  "s_inv s \<Longrightarrow> s_own_ok (s_chopsticks s) (s_pcs s) \<Longrightarrow> s_replay_ok s \<Longrightarrow>
     s_replay_ok (s_run s is)"
proof (induction "is" arbitrary: s)
  case Nil
  then show ?case by simp
next
  case (Cons i "is")
  show ?case
  proof (cases "s_step s i")
    case None
    then show ?thesis using Cons by simp
  next
    case (Some s')
    then have e: "i < NUM_PHILOSOPHERS" "s_exec (s_pcs s ! i) i s = Some s'"
      by (auto simp: s_step_def split: if_splits)
    have "s_inv s'" using Cons.prems(1) Some by (rule s_step_inv)
    moreover have "s_own_ok (s_chopsticks s') (s_pcs s')"
      using Cons.prems(1,2) e by (rule s_exec_own)
    moreover have "s_replay_ok s'"
      using Cons.prems(2,3) e by (rule s_exec_replay)
    ultimately show ?thesis using Cons.IH [of s'] Some by simp
  qed
qed

lemma s_reach_replay:
  "s_replay (s_log (s_run s_init is)) (replicate NUM_PHILOSOPHERS False, NUM_PHILOSOPHERS - 1)
     = Some (s_chopsticks (s_run s_init is), dining_semaphore (s_run s_init is))"
proof -
  have "s_replay_ok s_init" by (simp add: s_replay_ok_def s_init_def)
  then have "s_replay_ok (s_run s_init is)"
    using s_inv_init s_own_init by (intro s_run_replay)
  then show ?thesis by (simp add: s_replay_ok_def)
qed

text \<open>
  C7. In every state of every run of the Bounded-Concurrency strategy, the events of
  philosopher \<open>i\<close> in the log are its completed cycles followed by the part of the
  current cycle that lies behind it, where a cycle is: acquire a token, lock chopstick \<open>i\<close>,
  lock chopstick \<open>(i + 1) mod 5\<close>, consume, unlock chopstick \<open>(i + 1) mod 5\<close>, unlock
  chopstick \<open>i\<close>, release the token. A finished thread has gone through exactly three
  cycles. The events are what happened to the semaphore and the mutexes: replaying the log
  gives the mutex array and the semaphore of the state, and where the log says that the
  thread holds a chopstick, that mutex is locked.
\<close>

theorem s_cycle_order:
  assumes "i < NUM_PHILOSOPHERS"
  shows "s_proj i (s_log (s_run s_init is))
           = concat (replicate (s_meal (s_run s_init is) ! i)
               [SE_Token i, SE_Lock i i, SE_Lock i ((i + 1) mod NUM_PHILOSOPHERS), SE_Consume i,
                SE_Unlock i ((i + 1) mod NUM_PHILOSOPHERS), SE_Unlock i i, SE_Return i])
             @ take (s_progress (s_pcs (s_run s_init is) ! i))
               [SE_Token i, SE_Lock i i, SE_Lock i ((i + 1) mod NUM_PHILOSOPHERS), SE_Consume i,
                SE_Unlock i ((i + 1) mod NUM_PHILOSOPHERS), SE_Unlock i i, SE_Return i] \<and>
         s_meal (s_run s_init is) ! i \<le> 3 \<and>
         (s_pcs (s_run s_init is) ! i = S_Done \<longrightarrow>
            s_proj i (s_log (s_run s_init is))
              = concat (replicate 3
                  [SE_Token i, SE_Lock i i, SE_Lock i ((i + 1) mod NUM_PHILOSOPHERS), SE_Consume i,
                   SE_Unlock i ((i + 1) mod NUM_PHILOSOPHERS), SE_Unlock i i, SE_Return i])) \<and>
         s_replay (s_log (s_run s_init is)) (replicate NUM_PHILOSOPHERS False, NUM_PHILOSOPHERS - 1)
           = Some (s_chopsticks (s_run s_init is), dining_semaphore (s_run s_init is)) \<and>
         (s_progress (s_pcs (s_run s_init is) ! i) \<in> {2, 3, 4, 5} \<longrightarrow>
            s_chopsticks (s_run s_init is) ! i) \<and>
         (s_progress (s_pcs (s_run s_init is) ! i) \<in> {3, 4} \<longrightarrow>
            s_chopsticks (s_run s_init is) ! ((i + 1) mod NUM_PHILOSOPHERS))"
proof -
  let ?s = "s_run s_init is"
  have "s_log_ok ?s i"
    using s_inv_init s_log_init [OF assms] assms by (rule s_run_log)
  then have a: "s_proj i (s_log ?s)
       = concat (replicate (s_meal ?s ! i) (s_cycle i)) @ take (s_progress (s_pcs ?s ! i)) (s_cycle i)"
    by (simp add: s_log_ok_def)
  have ok: "s_meal_ok (s_pcs ?s ! i) (s_meal ?s ! i)"
    using s_reach_inv [of "is"] assms by (simp add: s_inv_def)
  have b: "s_meal ?s ! i \<le> 3"
    using ok by (cases "s_pcs ?s ! i") auto
  have c: "s_pcs ?s ! i = S_Done \<longrightarrow> s_proj i (s_log ?s) = concat (replicate 3 (s_cycle i))"
    using ok a by auto
  have d: "s_replay (s_log ?s) (replicate NUM_PHILOSOPHERS False, NUM_PHILOSOPHERS - 1)
             = Some (s_chopsticks ?s, dining_semaphore ?s)"
    by (rule s_reach_replay)
  have e: "s_progress (s_pcs ?s ! i) \<in> {2, 3, 4, 5} \<longrightarrow> s_chopsticks ?s ! i"
  proof
    assume "s_progress (s_pcs ?s ! i) \<in> {2, 3, 4, 5}"
    then have "s_owns (s_pcs ?s ! i) i i" by (cases "s_pcs ?s ! i") auto
    then show "s_chopsticks ?s ! i"
      using s_own_locked [OF s_reach_own assms assms] by blast
  qed
  have f: "s_progress (s_pcs ?s ! i) \<in> {3, 4} \<longrightarrow>
            s_chopsticks ?s ! ((i + 1) mod NUM_PHILOSOPHERS)"
  proof
    assume "s_progress (s_pcs ?s ! i) \<in> {3, 4}"
    then have "s_owns (s_pcs ?s ! i) i (s_right i)" by (cases "s_pcs ?s ! i") auto
    then have "s_chopsticks ?s ! s_right i"
      using s_own_locked [OF s_reach_own assms s_right_less] by blast
    then show "s_chopsticks ?s ! ((i + 1) mod NUM_PHILOSOPHERS)"
      by (simp add: s_right_def)
  qed
  show ?thesis using a b c d e f unfolding s_cycle_def by blast
qed

theorem s_cycle_order_witness:
  "(4::nat) < NUM_PHILOSOPHERS \<and>
   s_proj 4 (s_log (s_run s_init [4, 4, 4, 0, 4, 4, 4, 4, 4]))
     = [SE_Token 4, SE_Lock 4 4, SE_Lock 4 0, SE_Consume 4, SE_Unlock 4 0, SE_Unlock 4 4] \<and>
   s_pcs (s_run s_init [4, 4, 4, 0, 4, 4, 4, 4, 4]) ! 4 = S_Release \<and>
   s_meal (s_run s_init [4, 4, 4, 0, 4, 4, 4, 4, 4]) ! 4 = 0 \<and>
   s_pcs (s_run s_init [4, 4, 4, 0, 4, 4]) ! 4 = S_Eat \<and>
   s_chopsticks (s_run s_init [4, 4, 4, 0, 4, 4]) ! 4 \<and>
   s_chopsticks (s_run s_init [4, 4, 4, 0, 4, 4]) ! ((4 + 1) mod NUM_PHILOSOPHERS) \<and>
   s_replay [SE_Token 4, SE_Lock 4 4, SE_Lock 4 0] (replicate NUM_PHILOSOPHERS False, NUM_PHILOSOPHERS - 1)
     = Some (s_chopsticks (s_run s_init [4, 4, 4, 0, 4, 4]),
             dining_semaphore (s_run s_init [4, 4, 4, 0, 4, 4]))"
proof -
  have h: "(4::nat) < NUM_PHILOSOPHERS" by (simp add: NUM_PHILOSOPHERS_def)
  have p: "s_pcs (s_run s_init [4, 4, 4, 0, 4, 4, 4, 4, 4]) ! 4 = S_Release"
    "s_meal (s_run s_init [4, 4, 4, 0, 4, 4, 4, 4, 4]) ! 4 = 0"
    by (simp_all add: s_eval)
  have q: "s_pcs (s_run s_init [4, 4, 4, 0, 4, 4]) ! 4 = S_Eat"
    by (simp add: s_eval)
  have g: "s_log (s_run s_init [4, 4, 4, 0, 4, 4]) = [SE_Token 4, SE_Lock 4 4, SE_Lock 4 0]"
    by (simp add: s_eval)
  have l: "s_proj 4 (s_log (s_run s_init [4, 4, 4, 0, 4, 4, 4, 4, 4]))
     = [SE_Token 4, SE_Lock 4 4, SE_Lock 4 0, SE_Consume 4, SE_Unlock 4 0, SE_Unlock 4 4]"
    using s_cycle_order [OF h, of "[4, 4, 4, 0, 4, 4, 4, 4, 4]"]
    unfolding p by (simp add: NUM_PHILOSOPHERS_def)
  have t: "s_progress (s_pcs (s_run s_init [4, 4, 4, 0, 4, 4]) ! 4) \<in> {2, 3, 4, 5}"
    "s_progress (s_pcs (s_run s_init [4, 4, 4, 0, 4, 4]) ! 4) \<in> {3, 4}"
    unfolding q by simp_all
  have c: "s_chopsticks (s_run s_init [4, 4, 4, 0, 4, 4]) ! 4 \<and>
     s_chopsticks (s_run s_init [4, 4, 4, 0, 4, 4]) ! ((4 + 1) mod NUM_PHILOSOPHERS)"
    using s_cycle_order [OF h, of "[4, 4, 4, 0, 4, 4]"] t by blast
  have r: "s_replay (s_log (s_run s_init [4, 4, 4, 0, 4, 4]))
       (replicate NUM_PHILOSOPHERS False, NUM_PHILOSOPHERS - 1)
     = Some (s_chopsticks (s_run s_init [4, 4, 4, 0, 4, 4]),
             dining_semaphore (s_run s_init [4, 4, 4, 0, 4, 4]))"
    using s_cycle_order [OF h, of "[4, 4, 4, 0, 4, 4]"] by blast
  show ?thesis using h l p q c r [unfolded g] by (simp only: simp_thms)
qed

subsection \<open>Every run ends, with fifteen meals\<close>
















end
